theory Spec2Isabelle
  imports Main "HOL-Library.Sublist" "HOL-Library.Word"
begin

section \<open>Byte strings and the string primitives the program calls\<close>

text \<open>
  A Go string is a sequence of bytes; it is modelled as a \<open>string\<close> (a list of 8-bit
  characters). The functions of Go's package \<open>strings\<close> that the blocker calls are
  modelled on ASCII text, where their behaviour is fixed by bytes alone:
  \<open>ToLower\<close> maps the bytes \<open>A\<close>..\<open>Z\<close> to \<open>a\<close>..\<open>z\<close> and leaves every other byte,
  \<open>TrimSpace\<close> removes leading and then trailing bytes out of tab, line feed, vertical
  tab, form feed, carriage return and space. On a string with a byte of 128 or more Go
  decodes UTF-8 and applies the Unicode tables; that is outside this model, and every
  statement below whose content depends on it assumes \<open>ascii_only\<close>.
\<close>

definition ascii_only :: "string \<Rightarrow> bool" where
  "ascii_only s = list_all (\<lambda>c. (of_char c :: nat) < 128) s"

definition isUpper :: "char \<Rightarrow> bool" where
  "isUpper c = (65 \<le> (of_char c :: nat) \<and> (of_char c :: nat) \<le> 90)"

definition lowerByte :: "char \<Rightarrow> char" where
  "lowerByte c = (if isUpper c then char_of ((of_char c :: nat) + 32) else c)"

definition ToLower :: "string \<Rightarrow> string" where
  "ToLower s = map lowerByte s"

definition isSpace :: "char \<Rightarrow> bool" where
  "isSpace c = (let n = (of_char c :: nat) in
     n = 9 \<or> n = 10 \<or> n = 11 \<or> n = 12 \<or> n = 13 \<or> n = 32)"

definition TrimSpace :: "string \<Rightarrow> string" where
  "TrimSpace s = rev (dropWhile isSpace (rev (dropWhile isSpace s)))"

definition HasPrefix :: "string \<Rightarrow> string \<Rightarrow> bool" where
  "HasPrefix s p = (length p \<le> length s \<and> take (length p) s = p)"

definition HasSuffix :: "string \<Rightarrow> string \<Rightarrow> bool" where
  "HasSuffix s x = (length x \<le> length s \<and> drop (length s - length x) s = x)"

text \<open>\<open>strings.Contains\<close>: is there an offset at which \<open>sub\<close> starts.\<close>

fun Contains :: "string \<Rightarrow> string \<Rightarrow> bool" where
  "Contains [] sub = (sub = [])"
| "Contains (c # s) sub = (HasPrefix (c # s) sub \<or> Contains s sub)"

text \<open>
  \<open>strings.LastIndex\<close> with a one-byte needle scans from the last byte down to the
  first and returns the index of the first hit, or -1.
\<close>

fun LastIndex_loop :: "string \<Rightarrow> char \<Rightarrow> nat \<Rightarrow> int" where
  "LastIndex_loop s c 0 = - 1"
| "LastIndex_loop s c (Suc i) = (if s ! i = c then int i else LastIndex_loop s c i)"

definition LastIndex :: "string \<Rightarrow> char \<Rightarrow> int" where
  "LastIndex s c = LastIndex_loop s c (length s)"

section \<open>Matchers\<close>

text \<open>
  The interface \<open>Matcher\<close> has four implementations; each constructor below carries the
  fields of one struct: \<open>ExactMatcher{domain}\<close>, \<open>PrefixWildcardMatcher{pattern, suffix}\<close>,
  \<open>SuffixWildcardMatcher{pattern, prefix}\<close>, \<open>DoubleWildcardMatcher{pattern, middle}\<close>.
\<close>

datatype Matcher =
    ExactMatcher string
  | PrefixWildcardMatcher string string
  | SuffixWildcardMatcher string string
  | DoubleWildcardMatcher string string

definition NewExactMatcher :: "string \<Rightarrow> Matcher" where
  "NewExactMatcher domain = ExactMatcher (ToLower (TrimSpace domain))"

definition NewPrefixWildcardMatcher :: "string \<Rightarrow> Matcher" where
  "NewPrefixWildcardMatcher pattern0 =
     (let pattern = ToLower (TrimSpace pattern0);
          msuffix = (if HasPrefix pattern ''*.'' then drop 1 pattern else [])
      in PrefixWildcardMatcher pattern msuffix)"

definition NewSuffixWildcardMatcher :: "string \<Rightarrow> Matcher" where
  "NewSuffixWildcardMatcher pattern0 =
     (let pattern = ToLower (TrimSpace pattern0);
          mprefix = (if HasSuffix pattern ''.*'' then take (length pattern - 1) pattern else [])
      in SuffixWildcardMatcher pattern mprefix)"

definition NewDoubleWildcardMatcher :: "string \<Rightarrow> Matcher" where
  "NewDoubleWildcardMatcher pattern0 =
     (let pattern = ToLower (TrimSpace pattern0);
          mmiddle = (if HasPrefix pattern ''*.'' \<and> HasSuffix pattern ''.*''
                     then drop 1 (take (length pattern - 1) pattern) else [])
      in DoubleWildcardMatcher pattern mmiddle)"

fun Match :: "Matcher \<Rightarrow> string \<Rightarrow> bool" where
  "Match (ExactMatcher mdomain) domain0 =
     (let domain = ToLower (TrimSpace domain0) in
      if domain = mdomain then True
      else if HasSuffix domain (''.'' @ mdomain) then True
      else False)"
| "Match (PrefixWildcardMatcher mpattern msuffix) domain0 =
     (let domain = ToLower (TrimSpace domain0) in
      if msuffix = [] then False
      else HasSuffix domain msuffix \<and> domain \<noteq> drop 1 msuffix)"
| "Match (SuffixWildcardMatcher mpattern mprefix) domain0 =
     (let domain = ToLower (TrimSpace domain0) in
      if mprefix = [] then False
      else if HasPrefix domain mprefix
        then (let rest = drop (length mprefix) domain in 0 < length rest)
      else if Contains domain (''.'' @ mprefix) then True
      else False)"
| "Match (DoubleWildcardMatcher mpattern mmiddle) domain0 =
     (let domain = ToLower (TrimSpace domain0) in
      if mmiddle = [] then False
      else Contains domain mmiddle)"

fun Pattern :: "Matcher \<Rightarrow> string" where
  "Pattern (ExactMatcher mdomain) = mdomain"
| "Pattern (PrefixWildcardMatcher mpattern msuffix) = mpattern"
| "Pattern (SuffixWildcardMatcher mpattern mprefix) = mpattern"
| "Pattern (DoubleWildcardMatcher mpattern mmiddle) = mpattern"

definition CreateMatcher :: "string \<Rightarrow> Matcher" where
  "CreateMatcher pattern0 =
     (let pattern = TrimSpace pattern0;
          hasPrefix = HasPrefix pattern ''*.'';
          hasSuffix = HasSuffix pattern ''.*''
      in if hasPrefix \<and> hasSuffix then NewDoubleWildcardMatcher pattern
         else if hasPrefix then NewPrefixWildcardMatcher pattern
         else if hasSuffix then NewSuffixWildcardMatcher pattern
         else NewExactMatcher pattern)"

section \<open>The blocker\<close>

text \<open>
  The struct \<open>Blocker\<close> as a record. The two locks are left out: every function below is
  one call run from start to end. The counters are \<open>int64\<close>, so they are 64-bit words
  (\<open>+\<close> wraps) that \<open>Stats\<close> reads as signed numbers. The lines the methods print through
  the process-wide logger are collected, oldest first, in the field \<open>logged\<close>.
\<close>

datatype log_line =
    LogUpdated nat
  | LogBlocked string string
  | LogAllowed string

record Blocker =
  matchers :: "Matcher list"
  logBlocked :: bool
  logAllowed :: bool
  blockedCount :: "64 word"
  allowedCount :: "64 word"
  logged :: "log_line list"

definition New :: Blocker where
  "New = \<lparr> matchers = [], logBlocked = True, logAllowed = False,
           blockedCount = 0, allowedCount = 0, logged = [] \<rparr>"

definition SetLogging :: "Blocker \<Rightarrow> bool \<Rightarrow> bool \<Rightarrow> Blocker" where
  "SetLogging b lb la = b\<lparr> logBlocked := lb, logAllowed := la \<rparr>"

text \<open>The loop of \<open>UpdateBlacklist\<close>: \<open>ms\<close> is the slice \<open>b.matchers\<close> built so far.\<close>

fun UpdateBlacklist_loop :: "Matcher list \<Rightarrow> string list \<Rightarrow> Matcher list" where
  "UpdateBlacklist_loop ms [] = ms"
| "UpdateBlacklist_loop ms (pattern0 # patterns) =
     (let pattern = TrimSpace pattern0 in
      if pattern = [] then UpdateBlacklist_loop ms patterns
      else UpdateBlacklist_loop (ms @ [CreateMatcher pattern]) patterns)"

definition UpdateBlacklist :: "Blocker \<Rightarrow> string list \<Rightarrow> Blocker" where
  "UpdateBlacklist b patterns =
     (let ms = UpdateBlacklist_loop [] patterns in
      b\<lparr> matchers := ms, logged := logged b @ [LogUpdated (length ms)] \<rparr>)"

definition recordBlocked :: "Blocker \<Rightarrow> Blocker" where
  "recordBlocked b = b\<lparr> blockedCount := blockedCount b + 1 \<rparr>"

definition recordAllowed :: "Blocker \<Rightarrow> Blocker" where
  "recordAllowed b = b\<lparr> allowedCount := allowedCount b + 1 \<rparr>"

text \<open>
  The loop of \<open>IsBlocked\<close> over the matchers still to test, with the code after the loop
  as its base case. \<open>domain\<close> is the normalized candidate.
\<close>

fun IsBlocked_loop :: "Blocker \<Rightarrow> string \<Rightarrow> Matcher list \<Rightarrow> bool \<times> Blocker" where
  "IsBlocked_loop b domain [] =
     (let b1 = recordAllowed b;
          b2 = (if logAllowed b1 then b1\<lparr> logged := logged b1 @ [LogAllowed domain] \<rparr> else b1)
      in (False, b2))"
| "IsBlocked_loop b domain (matcher # rest) =
     (if Match matcher domain
      then (let b1 = recordBlocked b;
                b2 = (if logBlocked b1
                      then b1\<lparr> logged := logged b1 @ [LogBlocked domain (Pattern matcher)] \<rparr>
                      else b1)
            in (True, b2))
      else IsBlocked_loop b domain rest)"

definition IsBlocked :: "Blocker \<Rightarrow> string \<Rightarrow> bool \<times> Blocker" where
  "IsBlocked b domain0 =
     (let idx = LastIndex domain0 CHR '':'';
          domain1 = (if idx \<noteq> - 1 then take (nat idx) domain0 else domain0);
          domain = ToLower (TrimSpace domain1)
      in IsBlocked_loop b domain (matchers b))"

definition Stats :: "Blocker \<Rightarrow> int \<times> int" where
  "Stats b = (sint (blockedCount b), sint (allowedCount b))"

text \<open>
  \<open>GetPatterns\<close> allocates a slice as long as \<open>b.matchers\<close> and stores the pattern of
  the matcher at index \<open>i\<close> at index \<open>i\<close>.
\<close>

fun GetPatterns_loop :: "string list \<Rightarrow> nat \<Rightarrow> Matcher list \<Rightarrow> string list" where
  "GetPatterns_loop patterns i [] = patterns"
| "GetPatterns_loop patterns i (m # ms) = GetPatterns_loop (patterns[i := Pattern m]) (Suc i) ms"

definition GetPatterns :: "Blocker \<Rightarrow> string list" where
  "GetPatterns b =
     GetPatterns_loop (replicate (length (matchers b)) []) 0 (matchers b)"

text \<open>
  A blocker that holds exactly the given blacklist, asked about one domain: the answer
  of \<open>IsBlocked\<close> after \<open>New\<close> and \<open>UpdateBlacklist\<close>.
\<close>

definition blocked_under :: "string list \<Rightarrow> string \<Rightarrow> bool" where
  "blocked_under blacklist domain = fst (IsBlocked (UpdateBlacklist New blacklist) domain)"

text \<open>The dynamic type of a matcher, as \<open>TestCreateMatcher\<close> reads it.\<close>

datatype kind = Exact | PrefixWildcard | SuffixWildcard | DoubleWildcard

fun kind_of :: "Matcher \<Rightarrow> kind" where
  "kind_of (ExactMatcher mdomain) = Exact"
| "kind_of (PrefixWildcardMatcher mpattern msuffix) = PrefixWildcard"
| "kind_of (SuffixWildcardMatcher mpattern mprefix) = SuffixWildcard"
| "kind_of (DoubleWildcardMatcher mpattern mmiddle) = DoubleWildcard"

text \<open>
  A sequence of calls on one blocker, run one after the other. The result lists what the
  calls of \<open>IsBlocked\<close> returned, in order. \<open>Stats\<close> and \<open>GetPatterns\<close> only read.
\<close>

datatype call =
    CallSetLogging bool bool
  | CallUpdateBlacklist "string list"
  | CallIsBlocked string
  | CallStats
  | CallGetPatterns

fun run_calls :: "Blocker \<Rightarrow> call list \<Rightarrow> bool list \<times> Blocker" where
  "run_calls b [] = ([], b)"
| "run_calls b (CallSetLogging lb la # cs) = run_calls (SetLogging b lb la) cs"
| "run_calls b (CallUpdateBlacklist patterns # cs) = run_calls (UpdateBlacklist b patterns) cs"
| "run_calls b (CallIsBlocked domain # cs) =
     (let (r, b1) = IsBlocked b domain;
          (rs, b2) = run_calls b1 cs
      in (r # rs, b2))"
| "run_calls b (CallStats # cs) = run_calls b cs"
| "run_calls b (CallGetPatterns # cs) = run_calls b cs"

section \<open>The decision as the specification words it\<close>






section \<open>The CONNECT handler\<close>

text \<open>
  \<open>handleConnect\<close> acts on the network, so its model returns the actions in the order
  the code performs them. What the network answers is an input: \<open>dial_err\<close> gives the
  error of \<open>net.DialTimeout\<close> for an address (\<open>None\<close>: connected), \<open>is_hijacker\<close>
  says whether the response writer implements \<open>http.Hijacker\<close>, \<open>hijack_err\<close> is the
  error of \<open>Hijack\<close>. The request enters as its field \<open>Host\<close>.
\<close>

datatype conn = DestConn | ClientConn

datatype action =
    HttpError string nat
  | DialTimeout string string nat
  | Hijack
  | Close conn
  | Write conn string
  | GoTransfer conn conn

record handler_env =
  dial_err :: "string \<Rightarrow> string option"
  is_hijacker :: bool
  hijack_err :: "string option"

definition handleConnect :: "handler_env \<Rightarrow> Blocker \<Rightarrow> string \<Rightarrow> action list \<times> Blocker" where
  "handleConnect env b host =
     (let (blocked, b1) = IsBlocked b host in
      if blocked then ([HttpError ''Blocked'' 403], b1)
      else
        (case dial_err env host of
           Some err \<Rightarrow>
             ([DialTimeout ''tcp'' host 30, HttpError (''Failed to connect: '' @ err) 502], b1)
         | None \<Rightarrow>
             if \<not> is_hijacker env
             then ([DialTimeout ''tcp'' host 30, HttpError ''Hijacking not supported'' 500,
                    Close DestConn], b1)
             else
               (case hijack_err env of
                  Some err \<Rightarrow>
                    ([DialTimeout ''tcp'' host 30, Hijack,
                      HttpError (''Hijack failed: '' @ err) 500, Close DestConn], b1)
                | None \<Rightarrow>
                    ([DialTimeout ''tcp'' host 30, Hijack,
                      Write ClientConn (''HTTP/1.1 200 Connection Established''
                                        @ [CHR 0x0D, CHR 0x0A, CHR 0x0D, CHR 0x0A]),
                      GoTransfer DestConn ClientConn,
                      GoTransfer ClientConn DestConn], b1))))"

fun is_dial :: "action \<Rightarrow> bool" where
  "is_dial (DialTimeout network address seconds) = True"
| "is_dial (HttpError msg code) = False"
| "is_dial Hijack = False"
| "is_dial (Close c) = False"
| "is_dial (Write c s) = False"
| "is_dial (GoTransfer dst src) = False"

section \<open>Facts about the string primitives\<close>

lemma HasPrefix_iff: "HasPrefix s p \<longleftrightarrow> prefix p s"
  by (auto simp: HasPrefix_def prefix_def) (metis append_eq_conv_conj)

lemma HasSuffix_iff: "HasSuffix s x \<longleftrightarrow> suffix x s"
  by (auto simp: HasSuffix_def suffix_def) (metis append_take_drop_id)

lemma Contains_iff: "Contains s sub \<longleftrightarrow> sublist sub s"
  by (induction s) (auto simp: HasPrefix_iff sublist_Cons_right)

lemma LastIndex_loop_none:
  "\<forall>i<n. s ! i \<noteq> c \<Longrightarrow> LastIndex_loop s c n = - 1"
  by (induction n) auto

lemma LastIndex_loop_hit:
  "k < n \<Longrightarrow> s ! k = c \<Longrightarrow> \<forall>i. k < i \<and> i < n \<longrightarrow> s ! i \<noteq> c \<Longrightarrow> LastIndex_loop s c n = int k"
proof (induction n)
  case 0 then show ?case by simp
next
  case (Suc n)
  show ?case
  proof (cases "k = n")
    case True with Suc.prems show ?thesis by simp
  next
    case False
    with Suc.prems have "k < n" by simp
    moreover from Suc.prems \<open>k < n\<close> have "s ! n \<noteq> c" by simp
    ultimately show ?thesis using Suc by simp
  qed
qed

lemma LastIndex_absent: "c \<notin> set s \<Longrightarrow> LastIndex s c = - 1"
  unfolding LastIndex_def by (rule LastIndex_loop_none) (auto simp: in_set_conv_nth)

lemma LastIndex_last: "c \<notin> set p \<Longrightarrow> LastIndex (h @ c # p) c = int (length h)"
  unfolding LastIndex_def
  by (rule LastIndex_loop_hit) (auto simp: nth_append nth_Cons')

lemma split_last_colon: "c \<in> set s \<Longrightarrow> \<exists>h p. s = h @ c # p \<and> c \<notin> set p"
  by (rule split_list_last)

lemma isSpace_lowerByte [simp]: "isSpace (lowerByte c) = isSpace c"
  by (auto simp: isSpace_def lowerByte_def isUpper_def Let_def)

lemma isUpper_lowerByte [simp]: "\<not> isUpper (lowerByte c)"
  by (auto simp: lowerByte_def isUpper_def)

lemma lowerByte_idem [simp]: "lowerByte (lowerByte c) = lowerByte c"
  using isUpper_lowerByte[of c] by (subst (1) lowerByte_def) simp

lemma ToLower_idem [simp]: "ToLower (ToLower s) = ToLower s"
  by (simp add: ToLower_def)

lemma ToLower_append [simp]: "ToLower (a @ b) = ToLower a @ ToLower b"
  by (simp add: ToLower_def)

lemma TrimSpace_ToLower: "TrimSpace (ToLower s) = ToLower (TrimSpace s)"
  by (simp add: TrimSpace_def ToLower_def dropWhile_map rev_map comp_def)

lemma dropWhile_id_iff: "dropWhile P s = s \<longleftrightarrow> (s = [] \<or> \<not> P (hd s))"
proof (cases s)
  case Nil then show ?thesis by simp
next
  case (Cons x xs)
  have "length (dropWhile P xs) \<le> length xs" by (rule length_dropWhile_le)
  then have "dropWhile P xs \<noteq> x # xs" by (metis impossible_Cons)
  with Cons show ?thesis by simp
qed

lemma rev_dropWhile_rev_id_iff:
  "rev (dropWhile P (rev s)) = s \<longleftrightarrow> (s = [] \<or> \<not> P (last s))"
proof -
  have "rev (dropWhile P (rev s)) = s \<longleftrightarrow> dropWhile P (rev s) = rev s"
    by (metis rev_rev_ident)
  then show ?thesis by (simp add: dropWhile_id_iff hd_rev)
qed

lemma TrimSpace_id_iff:
  "TrimSpace s = s \<longleftrightarrow> (s = [] \<or> (\<not> isSpace (hd s) \<and> \<not> isSpace (last s)))"
proof
  assume eq: "TrimSpace s = s"
  have "length (TrimSpace s) \<le> length (dropWhile isSpace s)"
    unfolding TrimSpace_def using length_dropWhile_le[of isSpace "rev (dropWhile isSpace s)"] by simp
  with eq have "length s \<le> length (dropWhile isSpace s)" by simp
  then have d: "dropWhile isSpace s = s"
    by (metis append_eq_conv_conj length_append takeWhile_dropWhile_id add_le_same_cancel2 le_zero_eq length_0_conv append_Nil)
  with eq have "rev (dropWhile isSpace (rev s)) = s" by (simp add: TrimSpace_def)
  with d show "s = [] \<or> (\<not> isSpace (hd s) \<and> \<not> isSpace (last s))"
    by (auto simp: dropWhile_id_iff rev_dropWhile_rev_id_iff)
next
  assume "s = [] \<or> (\<not> isSpace (hd s) \<and> \<not> isSpace (last s))"
  then have "dropWhile isSpace s = s" "rev (dropWhile isSpace (rev s)) = s"
    by (auto simp: dropWhile_id_iff rev_dropWhile_rev_id_iff)
  then show "TrimSpace s = s" by (simp add: TrimSpace_def)
qed

lemma TrimSpace_idem [simp]: "TrimSpace (TrimSpace s) = TrimSpace s"
proof -
  define u where "u = dropWhile isSpace s"
  define t where "t = rev (dropWhile isSpace (rev u))"
  have t: "TrimSpace s = t" by (simp add: TrimSpace_def t_def u_def)
  have u: "u = t @ rev (takeWhile isSpace (rev u))"
    unfolding t_def by (metis rev_append rev_rev_ident takeWhile_dropWhile_id)
  have "t = [] \<or> (\<not> isSpace (hd t) \<and> \<not> isSpace (last t))"
  proof (cases "t = []")
    case True then show ?thesis by simp
  next
    case False
    then have "hd t = hd u" using u by (metis hd_append2)
    moreover have "u \<noteq> []" using False u by auto
    then have "\<not> isSpace (hd u)" unfolding u_def by (rule hd_dropWhile)
    moreover have "dropWhile isSpace (rev u) \<noteq> []" using False by (simp add: t_def)
    then have "\<not> isSpace (hd (dropWhile isSpace (rev u)))" by (rule hd_dropWhile)
    then have "\<not> isSpace (last t)" using False by (simp add: t_def last_rev)
    ultimately show ?thesis by simp
  qed
  then show ?thesis unfolding t by (simp add: TrimSpace_id_iff)
qed


lemma UpdateBlacklist_loop_eq:
  "UpdateBlacklist_loop ms ps =
     ms @ map CreateMatcher (filter (\<lambda>p. p \<noteq> []) (map TrimSpace ps))"
  by (induction ps arbitrary: ms) (auto simp: Let_def)

lemma GetPatterns_loop_eq:
  "i + length ms = length ps \<Longrightarrow>
   GetPatterns_loop ps i ms = take i ps @ map Pattern ms"
proof (induction ms arbitrary: ps i)
  case Nil then show ?case by simp
next
  case (Cons m ms)
  have "GetPatterns_loop (ps[i := Pattern m]) (Suc i) ms =
        take (Suc i) (ps[i := Pattern m]) @ map Pattern ms"
    using Cons.prems by (intro Cons.IH) simp
  moreover have "take (Suc i) (ps[i := Pattern m]) = take i ps @ [Pattern m]"
    using Cons.prems by (simp add: take_Suc_conv_app_nth)
  ultimately show ?case by simp
qed

lemma GetPatterns_eq: "GetPatterns b = map Pattern (matchers b)"
  using GetPatterns_loop_eq[of 0 "matchers b" "replicate (length (matchers b)) []"]
  by (simp add: GetPatterns_def)

lemma IsBlocked_loop_find:
  "IsBlocked_loop b c ms =
     (case find (\<lambda>m. Match m c) ms of
        None \<Rightarrow> (False, b\<lparr> allowedCount := allowedCount b + 1,
                           logged := logged b @ (if logAllowed b then [LogAllowed c] else []) \<rparr>)
      | Some m \<Rightarrow> (True, b\<lparr> blockedCount := blockedCount b + 1,
                           logged := logged b @ (if logBlocked b then [LogBlocked c (Pattern m)] else []) \<rparr>))"
  by (induction ms) (auto simp: Let_def recordAllowed_def recordBlocked_def)

lemma IsBlocked_no_colon:
  "CHR '':'' \<notin> set d \<Longrightarrow> IsBlocked b d = IsBlocked_loop b (ToLower (TrimSpace d)) (matchers b)"
  by (simp add: IsBlocked_def LastIndex_absent)

lemma IsBlocked_colon:
  "CHR '':'' \<notin> set p \<Longrightarrow>
   IsBlocked b (h @ '':'' @ p) = IsBlocked_loop b (ToLower (TrimSpace h)) (matchers b)"
  using LastIndex_last[of "CHR '':''" p h] by (simp add: IsBlocked_def)

lemma of_char_lowerByte:
  "(of_char (lowerByte c) :: nat) = (if isUpper c then of_char c + 32 else of_char c)"
  by (simp add: lowerByte_def isUpper_def)

lemma lowerByte_eq_punct:
  "(of_char k :: nat) < 65 \<Longrightarrow> lowerByte c = k \<longleftrightarrow> c = k"
proof -
  assume k: "(of_char k :: nat) < 65"
  have "lowerByte c = k \<longleftrightarrow> (of_char (lowerByte c) :: nat) = of_char k" by simp
  also have "\<dots> \<longleftrightarrow> (of_char c :: nat) = of_char k"
    using k by (auto simp: of_char_lowerByte isUpper_def)
  finally show ?thesis by simp
qed

lemma lowerByte_star [simp]: "lowerByte c = CHR ''*'' \<longleftrightarrow> c = CHR ''*''"
  by (rule lowerByte_eq_punct) simp
lemma lowerByte_dot [simp]: "lowerByte c = CHR ''.'' \<longleftrightarrow> c = CHR ''.''"
  by (rule lowerByte_eq_punct) simp
lemma lowerByte_colon [simp]: "lowerByte c = CHR '':'' \<longleftrightarrow> c = CHR '':''"
  by (rule lowerByte_eq_punct) simp

lemma lowerByte_star' [simp]: "CHR ''*'' = lowerByte c \<longleftrightarrow> c = CHR ''*''"
  using lowerByte_star[of c] by (simp only: eq_commute)
lemma lowerByte_dot' [simp]: "CHR ''.'' = lowerByte c \<longleftrightarrow> c = CHR ''.''"
  using lowerByte_dot[of c] by (simp only: eq_commute)
lemma lowerByte_colon' [simp]: "CHR '':'' = lowerByte c \<longleftrightarrow> c = CHR '':''"
  using lowerByte_colon[of c] by (simp only: eq_commute)

lemma lowerByte_punct_id [simp]:
  "lowerByte CHR ''*'' = CHR ''*''" "lowerByte CHR ''.'' = CHR ''.''" "lowerByte CHR '':'' = CHR '':''"
  by (simp_all add: lowerByte_def isUpper_def)

lemma colon_ToLower [simp]: "CHR '':'' \<in> set (ToLower s) \<longleftrightarrow> CHR '':'' \<in> set s"
  by (auto simp: ToLower_def)

lemma ToLower_eq_Nil [simp]: "ToLower s = [] \<longleftrightarrow> s = []"
  by (simp add: ToLower_def)

lemma prefix_star_ToLower: "prefix ''*.'' (ToLower s) \<longleftrightarrow> prefix ''*.'' s"
  by (cases s; cases "tl s") (auto simp: ToLower_def)

lemma suffix_star_ToLower: "suffix ''.*'' (ToLower s) \<longleftrightarrow> suffix ''.*'' s"
proof -
  have "suffix ''.*'' (ToLower s) \<longleftrightarrow> prefix ''*.'' (ToLower (rev s))"
    by (simp add: suffix_to_prefix ToLower_def rev_map)
  also have "\<dots> \<longleftrightarrow> prefix ''*.'' (rev s)" by (rule prefix_star_ToLower)
  also have "\<dots> \<longleftrightarrow> suffix ''.*'' s" by (simp add: suffix_to_prefix)
  finally show ?thesis .
qed

section \<open>Facts about the loops\<close>

lemma fst_IsBlocked_loop: "fst (IsBlocked_loop b c ms) = list_ex (\<lambda>m. Match m c) ms"
  by (induction ms) (simp_all add: Let_def)






section \<open>The decision procedure (C1, C10)\<close>




text \<open>
  Claim C10. For every (ASCII) input domain with at least one colon, \<open>IsBlocked\<close> cuts the
  string at its last colon and tests only the part \<open>h\<close> before it, whatever the part \<open>p\<close>
  behind that colon is (no test that \<open>p\<close> is a number is made): the domain splits as
  \<open>h @ '':'' @ p\<close> with no colon in \<open>p\<close>, and for each such split the call is the loop run
  on the normalized \<open>h\<close>. An IPv6 literal without a port so loses its last group.
\<close>

theorem IsBlocked_cuts_at_last_colon:
  assumes "ascii_only d" and "CHR '':'' \<in> set d"
  shows "(\<exists>h p. d = h @ '':'' @ p \<and> CHR '':'' \<notin> set p)
         \<and> (\<forall>h p. d = h @ '':'' @ p \<and> CHR '':'' \<notin> set p \<longrightarrow>
                IsBlocked b d = IsBlocked_loop b (ToLower (TrimSpace h)) (matchers b)
                \<and> fst (IsBlocked b d)
                    = list_ex (\<lambda>m. Match m (ToLower (TrimSpace h))) (matchers b))"
proof (intro conjI allI impI)
  from assms(2) have "\<exists>h p. d = h @ CHR '':'' # p \<and> CHR '':'' \<notin> set p"
    by (rule split_last_colon)
  then show "\<exists>h p. d = h @ '':'' @ p \<and> CHR '':'' \<notin> set p" by simp
next
  fix h p
  assume "d = h @ '':'' @ p \<and> CHR '':'' \<notin> set p"
  then have d: "d = h @ '':'' @ p" and p: "CHR '':'' \<notin> set p" by simp_all
  show 1: "IsBlocked b d = IsBlocked_loop b (ToLower (TrimSpace h)) (matchers b)"
    unfolding d using p by (rule IsBlocked_colon)
  show "fst (IsBlocked b d) = list_ex (\<lambda>m. Match m (ToLower (TrimSpace h))) (matchers b)"
    unfolding 1 by (rule fst_IsBlocked_loop)
qed

theorem IsBlocked_cuts_at_last_colon_witness:
  "ascii_only ''2001:db8::1'' \<and> CHR '':'' \<in> set ''2001:db8::1''
   \<and> fst (IsBlocked (UpdateBlacklist New [''2001:db8:'']) ''2001:db8::1'')"
proof -
  let ?b = "UpdateBlacklist New [''2001:db8:'']"
  have a: "ascii_only ''2001:db8::1''" by code_simp
  have c: "CHR '':'' \<in> set ''2001:db8::1''" by simp
  have s: "''2001:db8::1'' = ''2001:db8:'' @ '':'' @ ''1'' \<and> CHR '':'' \<notin> set ''1''" by simp
  have e: "list_ex (\<lambda>m. Match m (ToLower (TrimSpace ''2001:db8:''))) (matchers ?b)" by code_simp
  from IsBlocked_cuts_at_last_colon [OF a c, of ?b, THEN conjunct2, rule_format, OF s, THEN conjunct2]
  have "fst (IsBlocked ?b ''2001:db8::1'')" using e by simp
  with a c show ?thesis by (intro conjI)
qed

section \<open>The patterns a blocker reports (C8)\<close>

lemma Pattern_CreateMatcher: "Pattern (CreateMatcher q) = ToLower (TrimSpace q)"
  by (simp add: CreateMatcher_def Let_def NewDoubleWildcardMatcher_def
      NewPrefixWildcardMatcher_def NewSuffixWildcardMatcher_def NewExactMatcher_def)

lemma matchers_UpdateBlacklist:
  "matchers (UpdateBlacklist b ps) =
     map CreateMatcher (filter (\<lambda>p. p \<noteq> []) (map TrimSpace ps))"
  by (simp add: UpdateBlacklist_def UpdateBlacklist_loop_eq Let_def)

text \<open>
  Claim C8, as amended. For every list of (ASCII) pattern strings, \<open>GetPatterns\<close> after
  \<open>UpdateBlacklist\<close> returns, for each entry of the list that is not blank, the entry
  trimmed and lower-cased (not the text as it was given), in the order of the list; it
  is the list of \<open>Pattern\<close> of the compiled matchers, one element for each.
\<close>

theorem GetPatterns_normalized:
  assumes "list_all ascii_only ps"
  shows "GetPatterns (UpdateBlacklist b ps)
           = map (\<lambda>p. ToLower (TrimSpace p)) (filter (\<lambda>p. TrimSpace p \<noteq> []) ps)
         \<and> GetPatterns (UpdateBlacklist b ps) = map Pattern (matchers (UpdateBlacklist b ps))
         \<and> length (GetPatterns (UpdateBlacklist b ps)) = length (matchers (UpdateBlacklist b ps))"
proof -
  have "map Pattern (matchers (UpdateBlacklist b ps))
          = map (\<lambda>p. ToLower (TrimSpace p)) (filter (\<lambda>p. TrimSpace p \<noteq> []) ps)"
    by (simp add: matchers_UpdateBlacklist filter_map comp_def Pattern_CreateMatcher)
  moreover have "length (GetPatterns (UpdateBlacklist b ps)) = length (matchers (UpdateBlacklist b ps))"
    by (simp only: GetPatterns_eq length_map)
  ultimately show ?thesis by (simp only: GetPatterns_eq simp_thms)
qed

theorem GetPatterns_normalized_witness:
  "list_all ascii_only [''Facebook.COM'', ''   '', '' *.Example.org '']
   \<and> GetPatterns (UpdateBlacklist New [''Facebook.COM'', ''   '', '' *.Example.org ''])
       = [''facebook.com'', ''*.example.org'']"
proof -
  let ?ps = "[''Facebook.COM'', ''   '', '' *.Example.org '']"
  have a: "list_all ascii_only ?ps" by code_simp
  have e: "map (\<lambda>p. ToLower (TrimSpace p)) (filter (\<lambda>p. TrimSpace p \<noteq> []) ?ps)
             = [''facebook.com'', ''*.example.org'']" by code_simp
  from GetPatterns_normalized [OF a, of New, THEN conjunct1]
  have "GetPatterns (UpdateBlacklist New ?ps) = [''facebook.com'', ''*.example.org'']"
    unfolding e .
  with a show ?thesis by (intro conjI)
qed

text \<open>
  The claim as stated, that the original text comes back, fails on an entry with a
  capital letter: the matcher constructors store the lower-cased text only.
\<close>

theorem GetPatterns_original_text_counterexample:
  "GetPatterns (UpdateBlacklist New [''Facebook.COM'']) \<noteq> [''Facebook.COM'']"
  by code_simp

section \<open>The counters (C6)\<close>

lemma IsBlocked_counters:
  "blockedCount (snd (IsBlocked b d)) = blockedCount b + (if fst (IsBlocked b d) then 1 else 0)
   \<and> allowedCount (snd (IsBlocked b d)) = allowedCount b + (if fst (IsBlocked b d) then 0 else 1)"
  by (simp add: IsBlocked_def Let_def IsBlocked_loop_find split: option.split)

lemma run_calls_counters:
  "run_calls b cs = (rs, b') \<Longrightarrow>
     blockedCount b' = blockedCount b + of_nat (length (filter (\<lambda>r. r) rs))
     \<and> allowedCount b' = allowedCount b + of_nat (length (filter Not rs))
     \<and> length rs \<le> length cs"
proof (induction b cs arbitrary: rs b' rule: run_calls.induct)
  case (1 b)
  then show ?case by simp
next
  case (2 b lb la cs)
  then show ?case by (simp add: SetLogging_def le_Suc_eq)
next
  case (3 b patterns cs)
  then show ?case by (simp add: UpdateBlacklist_def Let_def le_Suc_eq)
next
  case (4 b domain cs)
  obtain r b1 where i: "IsBlocked b domain = (r, b1)" by (cases "IsBlocked b domain")
  obtain rs' b2 where r: "run_calls b1 cs = (rs', b2)" by (cases "run_calls b1 cs")
  from "4.prems" i r have rs: "rs = r # rs'" and b': "b' = b2" by simp_all
  from "4.IH"[OF i[symmetric] refl r]
  have ih: "blockedCount b2 = blockedCount b1 + of_nat (length (filter (\<lambda>r. r) rs'))"
    "allowedCount b2 = allowedCount b1 + of_nat (length (filter Not rs'))"
    "length rs' \<le> length cs" by simp_all
  from IsBlocked_counters[of b domain] i
  have st: "blockedCount b1 = blockedCount b + (if r then 1 else 0)"
    "allowedCount b1 = allowedCount b + (if r then 0 else 1)" by simp_all
  show ?case unfolding rs b' using ih st by simp
next
  case (5 b cs)
  then show ?case by (simp add: le_Suc_eq)
next
  case (6 b cs)
  then show ?case by (simp add: le_Suc_eq)
qed

lemma run_calls_append:
  "run_calls b (cs1 @ cs2) =
     (let (rs1, b1) = run_calls b cs1; (rs2, b2) = run_calls b1 cs2 in (rs1 @ rs2, b2))"
  by (induction b cs1 rule: run_calls.induct) (simp_all add: Let_def split: prod.split)

lemma sint_add_of_nat_64:
  fixes w :: "64 word"
  assumes "sint w + int n < 2 ^ 63"
  shows "sint (w + of_nat n) = sint w + int n"
proof -
  have lo: "- (2 ^ 63) \<le> sint w" using sint_ge[of w] by simp
  have hi: "sint w < 2 ^ 63" using sint_lt[of w] by simp
  have self: "signed_take_bit 63 (sint w) = sint w"
    using lo hi by (rule signed_take_bit_int_eq_self)
  have "sint (w + of_nat n) = signed_take_bit 63 (sint w + sint (of_nat n :: 64 word))"
    by (simp add: sint_word_add)
  also have "\<dots> = signed_take_bit 63 (signed_take_bit 63 (sint w) + signed_take_bit 63 (int n))"
    using self by (simp add: signed_of_nat)
  also have "\<dots> = signed_take_bit 63 (sint w + int n)"
    by (rule signed_take_bit_add)
  also have "\<dots> = sint w + int n"
    using lo assms by (intro signed_take_bit_int_eq_self) simp_all
  finally show ?thesis .
qed

text \<open>
  Claim C6. Every call of \<open>IsBlocked\<close> adds one to exactly one counter: to \<open>blockedCount\<close>
  if it returns \<open>true\<close>, to \<open>allowedCount\<close> if it returns \<open>false\<close> (last part, for every
  blocker state, in the arithmetic of \<open>int64\<close>). So on a new blocker, after any sequence
  of fewer than \<open>2^63\<close> calls of any of the methods, \<open>Stats\<close> is exactly the number of
  calls of \<open>IsBlocked\<close> that returned \<open>true\<close> and the number that returned \<open>false\<close>; and
  the counters never go down: what \<open>Stats\<close> gives after a first part \<open>cs1\<close> of the calls is
  at most what it gives after all of them. The bound on the number of calls is the range
  of \<open>int64\<close>.
\<close>

theorem counters_count_outcomes:
  assumes "run_calls New cs1 = (rs1, b1)"
      and "run_calls b1 cs2 = (rs2, b2)"
      and "length (cs1 @ cs2) < 2 ^ 63"
  shows "run_calls New (cs1 @ cs2) = (rs1 @ rs2, b2)
         \<and> Stats b2 = (int (length (filter (\<lambda>r. r) (rs1 @ rs2))), int (length (filter Not (rs1 @ rs2))))
         \<and> fst (Stats b1) \<le> fst (Stats b2) \<and> snd (Stats b1) \<le> snd (Stats b2)
         \<and> (\<forall>b d. blockedCount (snd (IsBlocked b d))
                    = blockedCount b + (if fst (IsBlocked b d) then 1 else 0)
                  \<and> allowedCount (snd (IsBlocked b d))
                    = allowedCount b + (if fst (IsBlocked b d) then 0 else 1))"
proof -
  have app: "run_calls New (cs1 @ cs2) = (rs1 @ rs2, b2)"
    using assms(1,2) by (simp add: run_calls_append)
  note c1 = run_calls_counters[OF assms(1)] and c2 = run_calls_counters[OF assms(2)]
  let ?n1 = "length (filter (\<lambda>r. r) rs1)" and ?a1 = "length (filter Not rs1)"
  let ?n2 = "length (filter (\<lambda>r. r) rs2)" and ?a2 = "length (filter Not rs2)"
  have len: "length rs1 + length rs2 < 2 ^ 63" using c1 c2 assms(3) by simp
  have le: "?n1 \<le> length rs1" "?a1 \<le> length rs1" "?n2 \<le> length rs2" "?a2 \<le> length rs2"
    by simp_all
  have len': "int (length rs1) + int (length rs2) < 2 ^ 63"
    using len by (metis of_nat_add of_nat_less_numeral_power_cancel_iff)
  have le': "int ?n1 \<le> int (length rs1)" "int ?a1 \<le> int (length rs1)"
            "int ?n2 \<le> int (length rs2)" "int ?a2 \<le> int (length rs2)"
    using le by (simp_all only: of_nat_le_iff)
  have bnd: "int ?n1 + int ?n2 < 2 ^ 63" "int ?a1 + int ?a2 < 2 ^ 63"
            "int ?n1 < 2 ^ 63" "int ?a1 < 2 ^ 63"
    using len' le' by linarith+
  have z: "sint (0 :: 64 word) = 0" by simp
  have s1: "sint (blockedCount b1) = int ?n1" "sint (allowedCount b1) = int ?a1"
    using c1 bnd sint_add_of_nat_64[of 0 ?n1] sint_add_of_nat_64[of 0 ?a1]
    by (simp_all add: New_def)
  have s2: "sint (blockedCount b2) = int ?n1 + int ?n2" "sint (allowedCount b2) = int ?a1 + int ?a2"
    using c2 s1 bnd sint_add_of_nat_64[of "blockedCount b1" ?n2]
      sint_add_of_nat_64[of "allowedCount b1" ?a2]
    by simp_all
  have st: "Stats b2 = (int (length (filter (\<lambda>r. r) (rs1 @ rs2))), int (length (filter Not (rs1 @ rs2))))"
    using s2 by (simp add: Stats_def)
  have mono: "fst (Stats b1) \<le> fst (Stats b2)" "snd (Stats b1) \<le> snd (Stats b2)"
    using s1 s2 by (simp_all add: Stats_def)
  have one: "\<forall>b d. blockedCount (snd (IsBlocked b d))
                    = blockedCount b + (if fst (IsBlocked b d) then 1 else 0)
                  \<and> allowedCount (snd (IsBlocked b d))
                    = allowedCount b + (if fst (IsBlocked b d) then 0 else 1)"
    by (intro allI) (rule IsBlocked_counters)
  from app st mono one show ?thesis by (intro conjI)
qed

theorem counters_count_outcomes_witness:
  "length ([CallUpdateBlacklist [''a.com''], CallIsBlocked ''a.com'', CallStats]
           @ [CallIsBlocked ''b.com'', CallSetLogging True True, CallIsBlocked ''x.a.com:80'',
              CallGetPatterns]) < (2::nat) ^ 63
   \<and> Stats (snd (run_calls New
        ([CallUpdateBlacklist [''a.com''], CallIsBlocked ''a.com'', CallStats]
         @ [CallIsBlocked ''b.com'', CallSetLogging True True, CallIsBlocked ''x.a.com:80'',
            CallGetPatterns]))) = (2, 1)"
proof -
  let ?cs1 = "[CallUpdateBlacklist [''a.com''], CallIsBlocked ''a.com'', CallStats]"
  let ?cs2 = "[CallIsBlocked ''b.com'', CallSetLogging True True, CallIsBlocked ''x.a.com:80'',
               CallGetPatterns]"
  let ?r1 = "run_calls New ?cs1"
  let ?r2 = "run_calls (snd ?r1) ?cs2"
  have l: "length (?cs1 @ ?cs2) < (2::nat) ^ 63" by simp
  have h1: "?r1 = (fst ?r1, snd ?r1)" by simp
  have h2: "?r2 = (fst ?r2, snd ?r2)" by simp
  note t = counters_count_outcomes [OF h1 h2 l]
  have e: "(int (length (filter (\<lambda>r. r) (fst ?r1 @ fst ?r2))),
            int (length (filter Not (fst ?r1 @ fst ?r2)))) = (2, 1)"
    by code_simp
  from t have "run_calls New (?cs1 @ ?cs2) = (fst ?r1 @ fst ?r2, snd ?r2)" by (rule conjunct1)
  then have "snd (run_calls New (?cs1 @ ?cs2)) = snd ?r2" by (rule arg_cong[where f = snd, THEN trans]) simp
  moreover from t have "Stats (snd ?r2) = (int (length (filter (\<lambda>r. r) (fst ?r1 @ fst ?r2))),
            int (length (filter Not (fst ?r1 @ fst ?r2))))"
    by (elim conjE)
  ultimately have "Stats (snd (run_calls New (?cs1 @ ?cs2))) = (2, 1)"
    by (simp only: e)
  with l show ?thesis by (intro conjI)
qed

section \<open>The CONNECT handler refuses before it dials (C7)\<close>

text \<open>
  Claim C7. For every CONNECT request (with an ASCII host), if \<open>IsBlocked\<close> blocks the
  host, \<open>handleConnect\<close> answers 403 and does nothing else: no action of its run is a
  dial. If the host is allowed, the one dial of the run goes to the host as it came in
  the request, port included, and it is the first action. The decision itself is taken
  on the host cut at its last colon.
\<close>

theorem handleConnect_blocked_never_dials:
  assumes "ascii_only host"
  shows "(fst (IsBlocked b host) \<longrightarrow>
            handleConnect env b host = ([HttpError ''Blocked'' 403], snd (IsBlocked b host))
            \<and> \<not> list_ex is_dial (fst (handleConnect env b host)))
         \<and> (\<not> fst (IsBlocked b host) \<longrightarrow>
            filter is_dial (fst (handleConnect env b host)) = [DialTimeout ''tcp'' host 30]
            \<and> hd (fst (handleConnect env b host)) = DialTimeout ''tcp'' host 30)
         \<and> (\<forall>h p. host = h @ '':'' @ p \<and> CHR '':'' \<notin> set p \<longrightarrow>
               fst (IsBlocked b host)
                 = list_ex (\<lambda>m. Match m (ToLower (TrimSpace h))) (matchers b))"
proof -
  obtain r b1 where i: "IsBlocked b host = (r, b1)" by (cases "IsBlocked b host")
  have 1: "fst (IsBlocked b host) \<longrightarrow>
            handleConnect env b host = ([HttpError ''Blocked'' 403], snd (IsBlocked b host))
            \<and> \<not> list_ex is_dial (fst (handleConnect env b host))"
    by (simp add: handleConnect_def i)
  have 2: "\<not> fst (IsBlocked b host) \<longrightarrow>
            filter is_dial (fst (handleConnect env b host)) = [DialTimeout ''tcp'' host 30]
            \<and> hd (fst (handleConnect env b host)) = DialTimeout ''tcp'' host 30"
    by (simp add: handleConnect_def i split: option.split)
  have 3: "\<forall>h p. host = h @ '':'' @ p \<and> CHR '':'' \<notin> set p \<longrightarrow>
               fst (IsBlocked b host)
                 = list_ex (\<lambda>m. Match m (ToLower (TrimSpace h))) (matchers b)"
  proof (intro allI impI)
    fix h p
    assume "host = h @ '':'' @ p \<and> CHR '':'' \<notin> set p"
    then have d: "host = h @ '':'' @ p" and p: "CHR '':'' \<notin> set p" by simp_all
    show "fst (IsBlocked b host) = list_ex (\<lambda>m. Match m (ToLower (TrimSpace h))) (matchers b)"
      unfolding d IsBlocked_colon[OF p] by (rule fst_IsBlocked_loop)
  qed
  from 1 2 3 show ?thesis by (intro conjI)
qed

theorem handleConnect_blocked_never_dials_witness:
  "ascii_only ''www.google.de:443''
   \<and> fst (handleConnect \<lparr> dial_err = (\<lambda>a. None), is_hijacker = True, hijack_err = None \<rparr>
              (UpdateBlacklist New [''google.*'']) ''www.google.de:443'')
       = [HttpError ''Blocked'' 403]
   \<and> ascii_only ''www.example.org:443''
   \<and> filter is_dial
        (fst (handleConnect \<lparr> dial_err = (\<lambda>a. None), is_hijacker = True, hijack_err = None \<rparr>
              (UpdateBlacklist New [''google.*'']) ''www.example.org:443''))
       = [DialTimeout ''tcp'' ''www.example.org:443'' 30]"
proof -
  let ?env = "\<lparr> dial_err = (\<lambda>a. None), is_hijacker = True, hijack_err = None \<rparr>"
  let ?b = "UpdateBlacklist New [''google.*'']"
  have a1: "ascii_only ''www.google.de:443''" by code_simp
  have a2: "ascii_only ''www.example.org:443''" by code_simp
  have b1: "fst (IsBlocked ?b ''www.google.de:443'')" by code_simp
  have b2: "\<not> fst (IsBlocked ?b ''www.example.org:443'')" by code_simp
  from handleConnect_blocked_never_dials [OF a1, of ?b ?env, THEN conjunct1, rule_format, OF b1]
  have 1: "fst (handleConnect ?env ?b ''www.google.de:443'') = [HttpError ''Blocked'' 403]"
    by simp
  from handleConnect_blocked_never_dials [OF a2, of ?b ?env, THEN conjunct2, THEN conjunct1,
      rule_format, OF b2]
  have 2: "filter is_dial (fst (handleConnect ?env ?b ''www.example.org:443''))
             = [DialTimeout ''tcp'' ''www.example.org:443'' 30]"
    by (rule conjunct1)
  from a1 1 a2 2 show ?thesis by (intro conjI)
qed

section \<open>The four kinds of pattern (C2, C3, C4, C5)\<close>

subsection \<open>Lists that cannot contain a padded copy of themselves\<close>

lemma sublist_pad_False:
  assumes sub: "sublist (c # x @ [e]) (a @ x @ s)"
      and c: "c \<notin> set a" and e: "e \<notin> set (tl s)"
  shows False
proof -
  from sub obtain ps ss where eq: "a @ x @ s = ps @ (c # x @ [e]) @ ss"
    unfolding sublist_def by (elim exE)
  have "\<not> length ps < length a"
  proof
    assume l: "length ps < length a"
    have "(a @ x @ s) ! length ps = a ! length ps" using l by (simp add: nth_append)
    moreover have "(ps @ (c # x @ [e]) @ ss) ! length ps = c" by (simp add: nth_append)
    ultimately have "a ! length ps = c" using eq by simp
    with l c show False by (metis nth_mem)
  qed
  then have "length a \<le> length ps" by simp
  with eq obtain ps' where ps: "ps = a @ ps'"
    by (metis append_eq_append_conv_if append_take_drop_id)
  with eq have eq': "x @ s = ps' @ (c # x @ [e]) @ ss" by simp
  have "length (x @ s) = length (ps' @ (c # x @ [e]) @ ss)" by (simp only: eq')
  then have len: "length s = length ps' + 2 + length ss" by simp
  have "(x @ s) ! (length x + (length ps' + 1)) = s ! (length ps' + 1)"
    by (simp add: nth_append)
  moreover have "(ps' @ (c # x @ [e]) @ ss) ! (length x + (length ps' + 1)) = e"
    by (simp add: nth_append nth_Cons')
  ultimately have "s ! (length ps' + 1) = e" using eq' by simp
  then have "tl s ! length ps' = e" using len by (simp add: nth_tl)
  moreover have "length ps' < length (tl s)" using len by simp
  ultimately show False using e by (metis nth_mem)
qed

lemma prefix_pad_mem:
  assumes "prefix (x @ [c]) (a @ x @ s)" and "a \<noteq> []"
  shows "c \<in> set a"
  using assms(1)
proof (induction "length x" arbitrary: x rule: less_induct)
  case less
  show ?case
  proof (cases "length x < length a")
    case True
    then have "length (x @ [c]) \<le> length a" by simp
    moreover have "prefix a (a @ x @ s)" by simp
    ultimately have "prefix (x @ [c]) a"
      using less.prems by (metis prefix_length_prefix)
    then show ?thesis by (metis set_mono_prefix in_set_conv_decomp subsetD)
  next
    case False
    then have la: "length a \<le> length x" by simp
    have px: "prefix x (a @ x @ s)" using less.prems by (metis append_prefixD)
    have "prefix a (a @ x @ s)" by simp
    with px la have "prefix a x" by (metis prefix_length_prefix)
    then obtain y where y: "x = a @ y" by (auto simp: prefix_def)
    from less.prems have "prefix (y @ [c]) (a @ y @ s)" unfolding y by simp
    moreover have "length y < length x" using y assms(2) by simp
    ultimately show ?thesis by (rule less.hyps[rotated])
  qed
qed

lemma norm_idem: "ToLower (TrimSpace (ToLower (TrimSpace s))) = ToLower (TrimSpace s)"
  by (simp add: TrimSpace_ToLower)

lemma CreateMatcher_cases:
  "CreateMatcher P =
     (let q = ToLower (TrimSpace P) in
      if prefix ''*.'' q \<and> suffix ''.*'' q
        then DoubleWildcardMatcher q (drop 1 (take (length q - 1) q))
      else if prefix ''*.'' q then PrefixWildcardMatcher q (drop 1 q)
      else if suffix ''.*'' q then SuffixWildcardMatcher q (take (length q - 1) q)
      else ExactMatcher q)"
  by (simp add: CreateMatcher_def Let_def NewDoubleWildcardMatcher_def
      NewPrefixWildcardMatcher_def NewSuffixWildcardMatcher_def NewExactMatcher_def
      HasPrefix_iff HasSuffix_iff prefix_star_ToLower suffix_star_ToLower)

lemma CreateMatcher_TrimSpace: "CreateMatcher (TrimSpace P) = CreateMatcher P"
  by (simp add: CreateMatcher_cases)

lemma blocked_under_single:
  assumes "TrimSpace P \<noteq> []" and "CHR '':'' \<notin> set c"
  shows "blocked_under [P] c = Match (CreateMatcher P) (ToLower (TrimSpace c))"
proof -
  have m: "matchers (UpdateBlacklist New [P]) = [CreateMatcher P]"
    using assms(1) by (simp add: matchers_UpdateBlacklist CreateMatcher_TrimSpace)
  show ?thesis
    unfolding blocked_under_def IsBlocked_no_colon[OF assms(2)] fst_IsBlocked_loop m by simp
qed

lemma Match_Exact_norm:
  "Match (ExactMatcher q) (ToLower (TrimSpace c))
     \<longleftrightarrow> ToLower (TrimSpace c) = q \<or> suffix (''.'' @ q) (ToLower (TrimSpace c))"
  by (auto simp add: norm_idem HasSuffix_iff Let_def)

lemma Match_Prefix_norm:
  "Match (PrefixWildcardMatcher (''*.'' @ x) (''.'' @ x)) (ToLower (TrimSpace c))
     \<longleftrightarrow> suffix (''.'' @ x) (ToLower (TrimSpace c)) \<and> ToLower (TrimSpace c) \<noteq> x"
  by (simp add: norm_idem HasSuffix_iff Let_def)

lemma Match_Suffix_norm:
  "Match (SuffixWildcardMatcher (x @ ''.*'') (x @ ''.'')) (ToLower (TrimSpace c))
     \<longleftrightarrow> (prefix (x @ ''.'') (ToLower (TrimSpace c))
            \<and> length (x @ ''.'') < length (ToLower (TrimSpace c)))
         \<or> sublist (''.'' @ x @ ''.'') (ToLower (TrimSpace c))"
proof -
  let ?d = "ToLower (TrimSpace c)"
  have "\<not> sublist (CHR ''.'' # x @ ''.'') ?d" if "prefix (x @ ''.'') ?d" "\<not> length x + 1 < length ?d"
  proof
    assume "sublist (CHR ''.'' # x @ ''.'') ?d"
    then have "length (CHR ''.'' # x @ ''.'') \<le> length ?d" by (rule sublist_length_le)
    with that(2) show False by simp
  qed
  then show ?thesis
    by (auto simp add: norm_idem HasPrefix_iff Contains_iff Let_def)
qed

lemma Match_Double_norm:
  "Match (DoubleWildcardMatcher (''*.'' @ x @ ''.*'') (''.'' @ x @ ''.'')) (ToLower (TrimSpace c))
     \<longleftrightarrow> sublist (''.'' @ x @ ''.'') (ToLower (TrimSpace c))"
  by (simp add: norm_idem Contains_iff Let_def)

lemma blocked_under_plain:
  assumes "TrimSpace P \<noteq> []" and "CHR '':'' \<notin> set c" and "TrimSpace c = c"
  shows "blocked_under [P] c = Match (CreateMatcher P) (ToLower (TrimSpace (ToLower c)))"
  using blocked_under_single[OF assms(1,2)] assms(3) by (simp add: TrimSpace_ToLower)

lemma ToLower_literals:
  "ToLower ''sub.'' = ''sub.''" "ToLower ''not'' = ''not''" "ToLower ''.other'' = ''.other''"
  "ToLower ''a.'' = ''a.''" "ToLower ''a.b.'' = ''a.b.''" "ToLower ''.com'' = ''.com''"
  "ToLower ''.de'' = ''.de''" "ToLower ''www.'' = ''www.''" "ToLower ''.b'' = ''.b''"
  by (simp_all add: ToLower_def lowerByte_def isUpper_def)

lemma not_suffix_dot_not: "\<not> suffix (CHR ''.'' # q) (''not'' @ q)"
proof -
  have "suffix (''.'' @ q) (''not'' @ q) = suffix ''.'' ''not''" by (rule same_suffix_suffix)
  moreover have "\<not> suffix ''.'' ''not''" by (simp add: suffix_def Cons_eq_append_conv append_eq_Cons_conv)
  ultimately show ?thesis by simp
qed

lemma suffix_dot_sub: "suffix (CHR ''.'' # q) (''sub.'' @ q)"
  unfolding suffix_def by (rule exI[of _ "''sub''"]) simp

lemma dropWhile_prefix_length:
  assumes "prefix a b"
  shows "length (dropWhile P a) \<le> length (dropWhile P b)"
proof -
  from assms obtain c where b: "b = a @ c" by (auto simp: prefix_def)
  show ?thesis
  proof (cases "\<forall>y\<in>set a. P y")
    case True
    then have "dropWhile P a = []" by (simp add: dropWhile_eq_Nil_conv)
    then show ?thesis by (simp only: list.size(3) le0)
  next
    case False
    then have "dropWhile P (a @ c) = dropWhile P a @ c" by (auto simp add: dropWhile_append)
    then show ?thesis unfolding b by simp
  qed
qed

lemma length_TrimSpace_le:
  "length (TrimSpace X) \<le> length (rev (dropWhile isSpace (rev X)))"
proof -
  have "suffix (dropWhile isSpace X) X" by (rule suffix_dropWhile)
  then have "prefix (rev (dropWhile isSpace X)) (rev X)" by (simp add: suffix_to_prefix)
  then have "length (dropWhile isSpace (rev (dropWhile isSpace X)))
               \<le> length (dropWhile isSpace (rev X))"
    by (rule dropWhile_prefix_length)
  then show ?thesis by (simp add: TrimSpace_def)
qed

lemma TrimSpace_after_text:
  assumes "a \<noteq> []" and "\<not> isSpace (hd a)" and "\<not> isSpace (last a)"
  shows "TrimSpace (a @ X) = a @ rev (dropWhile isSpace (rev X))"
proof -
  have 1: "dropWhile isSpace (a @ X) = a @ X"
    using assms(1,2) by (simp add: dropWhile_id_iff)
  have 2: "dropWhile isSpace (rev a) = rev a"
    using assms(1,3) by (simp add: dropWhile_id_iff hd_rev)
  show ?thesis
  proof (cases "\<forall>y\<in>set (rev X). isSpace y")
    case True
    then have "dropWhile isSpace (rev X @ rev a) = dropWhile isSpace (rev a)"
      by (simp add: dropWhile_append)
    moreover from True have "dropWhile isSpace (rev X) = []"
      by (simp add: dropWhile_eq_Nil_conv)
    ultimately show ?thesis by (simp add: TrimSpace_def 1 2)
  next
    case False
    then have "dropWhile isSpace (rev X @ rev a) = dropWhile isSpace (rev X) @ rev a"
      by (auto simp add: dropWhile_append)
    then show ?thesis by (simp add: TrimSpace_def 1)
  qed
qed

lemma TrimSpace_before_text:
  assumes "t \<noteq> []" and "\<not> isSpace (hd t)" and "\<not> isSpace (last t)"
  shows "TrimSpace (X @ t) = dropWhile isSpace X @ t"
proof -
  have 1: "dropWhile isSpace (X @ t) = dropWhile isSpace X @ t"
  proof (cases "\<forall>y\<in>set X. isSpace y")
    case True
    then have "dropWhile isSpace X = []" by (simp add: dropWhile_eq_Nil_conv)
    moreover from True have "dropWhile isSpace (X @ t) = dropWhile isSpace t"
      by (simp add: dropWhile_append)
    moreover have "dropWhile isSpace t = t" using assms(1,2) by (simp add: dropWhile_id_iff)
    ultimately show ?thesis by (simp only: append_Nil)
  next
    case False
    then show ?thesis by (auto simp add: dropWhile_append)
  qed
  have "dropWhile isSpace (rev t @ rev (dropWhile isSpace X)) = rev t @ rev (dropWhile isSpace X)"
    using assms(1,3) by (simp add: dropWhile_id_iff hd_append hd_rev)
  then show ?thesis by (simp add: TrimSpace_def 1)
qed

lemma TrimSpace_no_leading:
  assumes "X \<noteq> []" and "\<not> isSpace (hd X)"
  shows "TrimSpace X = rev (dropWhile isSpace (rev X))" and "TrimSpace X \<noteq> []"
proof -
  have "dropWhile isSpace X = X" using assms by (simp add: dropWhile_id_iff)
  then show 1: "TrimSpace X = rev (dropWhile isSpace (rev X))" by (simp add: TrimSpace_def)
  have "hd X \<in> set (rev X)" using assms(1) by simp
  with assms(2) have "\<not> (\<forall>y\<in>set (rev X). isSpace y)" by (metis)
  then have "dropWhile isSpace (rev X) \<noteq> []" by (simp only: dropWhile_eq_Nil_conv not_False_eq_True)
  then show "TrimSpace X \<noteq> []" unfolding 1 by simp
qed

lemma dot_not_in_leading_space: "CHR ''.'' \<notin> set (ToLower (takeWhile isSpace X))"
proof
  assume "CHR ''.'' \<in> set (ToLower (takeWhile isSpace X))"
  then obtain c where c: "c \<in> set (takeWhile isSpace X)" and l: "lowerByte c = CHR ''.''"
    by (auto simp: ToLower_def)
  from l have "c = CHR ''.''" by simp
  moreover from c have "isSpace c" by (metis set_takeWhileD)
  ultimately show False by (simp add: isSpace_def)
qed

lemma not_prefix_padded:
  assumes "a \<noteq> []" and "CHR ''.'' \<notin> set a"
  shows "\<not> prefix (x @ ''.'') (a @ x @ t)"
proof
  assume "prefix (x @ ''.'') (a @ x @ t)"
  then have "CHR ''.'' \<in> set a" using assms(1) by (rule prefix_pad_mem)
  with assms(2) show False by simp
qed

lemma not_sublist_padded_com:
  assumes "CHR ''.'' \<notin> set a"
  shows "\<not> sublist (CHR ''.'' # x @ ''.'') (a @ x @ ''.com'')"
proof
  assume "sublist (CHR ''.'' # x @ ''.'') (a @ x @ ''.com'')"
  then show False using assms by (rule sublist_pad_False) simp
qed

subsection \<open>Exact patterns\<close>

text \<open>
  Claim C2, as amended. Let \<open>X\<close> be an (ASCII) pattern and \<open>q\<close> its trimmed, lower-cased
  text, with no leading \<open>*.\<close> and no trailing \<open>.*\<close>. Then \<open>CreateMatcher\<close> gives the exact
  matcher of \<open>q\<close>, and this matcher matches a normalized candidate \<open>d\<close> if and only if
  \<open>d\<close> is \<open>q\<close> or ends with a dot followed by \<open>q\<close>. If moreover \<open>X\<close> does not start with
  white space (so it is not blank) and contains no colon, then under the blacklist \<open>[X]\<close>
  the domains \<open>X\<close> and \<open>sub.X\<close> are blocked, \<open>notX\<close> is allowed, and \<open>X.other\<close> is blocked
  exactly when it is itself a subdomain of \<open>X\<close>, that is when its lower-cased text ends
  with a dot followed by \<open>q\<close>; otherwise it is allowed.
\<close>

theorem exact_pattern_semantics:
  assumes "ascii_only X" and "q = ToLower (TrimSpace X)"
      and "\<not> prefix ''*.'' q" and "\<not> suffix ''.*'' q"
  shows "CreateMatcher X = ExactMatcher q
         \<and> (\<forall>d. ascii_only d \<and> ToLower (TrimSpace d) = d \<longrightarrow>
               (Match (CreateMatcher X) d \<longleftrightarrow> d = q \<or> suffix (''.'' @ q) d))
         \<and> (X \<noteq> [] \<and> \<not> isSpace (hd X) \<and> CHR '':'' \<notin> set X \<longrightarrow>
               blocked_under [X] X
               \<and> blocked_under [X] (''sub.'' @ X)
               \<and> \<not> blocked_under [X] (''not'' @ X)
               \<and> (blocked_under [X] (X @ ''.other'')
                    \<longleftrightarrow> suffix (''.'' @ q) (ToLower X @ ''.other'')))"
proof -
  have cm: "CreateMatcher X = ExactMatcher q"
    using assms(2-4) by (simp add: CreateMatcher_cases Let_def)
  have iff: "\<forall>d. ascii_only d \<and> ToLower (TrimSpace d) = d \<longrightarrow>
               (Match (CreateMatcher X) d \<longleftrightarrow> d = q \<or> suffix (''.'' @ q) d)"
  proof (intro allI impI)
    fix d assume "ascii_only d \<and> ToLower (TrimSpace d) = d"
    then have n: "ToLower (TrimSpace d) = d" by simp
    show "Match (CreateMatcher X) d \<longleftrightarrow> d = q \<or> suffix (''.'' @ q) d"
      unfolding cm using Match_Exact_norm[of q d] unfolding n .
  qed
  have ex: "blocked_under [X] X \<and> blocked_under [X] (''sub.'' @ X)
            \<and> \<not> blocked_under [X] (''not'' @ X)
            \<and> (blocked_under [X] (X @ ''.other'')
                 \<longleftrightarrow> suffix (''.'' @ q) (ToLower X @ ''.other''))"
    if h: "X \<noteq> [] \<and> \<not> isSpace (hd X) \<and> CHR '':'' \<notin> set X"
  proof -
    from h have ne: "X \<noteq> []" and sp: "\<not> isSpace (hd X)" and nc: "CHR '':'' \<notin> set X"
      by simp_all
    define R where "R = rev (dropWhile isSpace (rev X))"
    have tX: "TrimSpace X = R" unfolding R_def using ne sp by (rule TrimSpace_no_leading(1))
    have nb: "TrimSpace X \<noteq> []" using ne sp by (rule TrimSpace_no_leading(2))
    have q: "q = ToLower R" using assms(2) tX by simp
    have t1: "TrimSpace (''sub.'' @ X) = ''sub.'' @ R"
      unfolding R_def by (rule TrimSpace_after_text) (simp_all add: isSpace_def)
    have t2: "TrimSpace (''not'' @ X) = ''not'' @ R"
      unfolding R_def by (rule TrimSpace_after_text) (simp_all add: isSpace_def)
    have t3: "TrimSpace (X @ ''.other'') = X @ ''.other''"
      using sp ne by (simp add: TrimSpace_id_iff isSpace_def hd_append)
    have c1: "CHR '':'' \<notin> set (''sub.'' @ X)" "CHR '':'' \<notin> set (''not'' @ X)"
      "CHR '':'' \<notin> set (X @ ''.other'')" using nc by simp_all
    have l1: "ToLower (''sub.'' @ R) = ''sub.'' @ q" "ToLower (''not'' @ R) = ''not'' @ q"
      "ToLower (X @ ''.other'') = ToLower X @ ''.other''"
      by (simp_all only: ToLower_append ToLower_literals q)
    have key: "blocked_under [X] c \<longleftrightarrow>
        ToLower (TrimSpace c) = q \<or> suffix (CHR ''.'' # q) (ToLower (TrimSpace c))"
      if "CHR '':'' \<notin> set c" for c
    proof -
      have "blocked_under [X] c = Match (CreateMatcher X) (ToLower (TrimSpace c))"
        using nb that by (rule blocked_under_single)
      also have "\<dots> \<longleftrightarrow> ToLower (TrimSpace c) = q \<or> suffix (''.'' @ q) (ToLower (TrimSpace c))"
        unfolding cm by (rule Match_Exact_norm)
      finally show ?thesis by simp
    qed
    have b1: "blocked_under [X] X"
      unfolding key[OF nc] tX by (simp add: q)
    have b2: "blocked_under [X] (''sub.'' @ X)"
      unfolding key[OF c1(1)] t1 l1 using suffix_dot_sub[of q] by simp
    have b3: "\<not> blocked_under [X] (''not'' @ X)"
      unfolding key[OF c1(2)] t2 l1 using not_suffix_dot_not[of q] by simp
    have "length R \<le> length X" unfolding R_def using length_dropWhile_le[of isSpace "rev X"] by simp
    then have "length q < length (ToLower X @ ''.other'')" by (simp add: q ToLower_def)
    then have neq: "ToLower X @ ''.other'' \<noteq> q" by auto
    have b4: "blocked_under [X] (X @ ''.other'') \<longleftrightarrow> suffix (''.'' @ q) (ToLower X @ ''.other'')"
      unfolding key[OF c1(3)] t3 l1 using neq by simp
    from b1 b2 b3 b4 show ?thesis by (intro conjI)
  qed
  have ex': "X \<noteq> [] \<and> \<not> isSpace (hd X) \<and> CHR '':'' \<notin> set X \<longrightarrow>
               blocked_under [X] X
               \<and> blocked_under [X] (''sub.'' @ X)
               \<and> \<not> blocked_under [X] (''not'' @ X)
               \<and> (blocked_under [X] (X @ ''.other'')
                    \<longleftrightarrow> suffix (''.'' @ q) (ToLower X @ ''.other''))"
    by (rule impI) (rule ex)
  from cm iff ex' show ?thesis by (intro conjI)
qed

theorem exact_pattern_semantics_witness:
  "CreateMatcher ''Facebook.com '' = ExactMatcher ''facebook.com''
   \<and> blocked_under [''Facebook.com ''] ''Facebook.com ''
   \<and> blocked_under [''Facebook.com ''] ''sub.Facebook.com ''
   \<and> \<not> blocked_under [''Facebook.com ''] ''notFacebook.com ''
   \<and> \<not> blocked_under [''Facebook.com ''] ''Facebook.com .other''"
proof -
  let ?X = "''Facebook.com ''"
  have a: "ascii_only ?X" by code_simp
  have q: "''facebook.com'' = ToLower (TrimSpace ?X)" by code_simp
  have p: "\<not> prefix ''*.'' ''facebook.com''" by code_simp
  have s: "\<not> suffix ''.*'' ''facebook.com''" by code_simp
  have h: "?X \<noteq> [] \<and> \<not> isSpace (hd ?X) \<and> CHR '':'' \<notin> set ?X" by code_simp
  have o: "\<not> suffix (''.'' @ ''facebook.com'') (ToLower ?X @ ''.other'')" by code_simp
  note t = exact_pattern_semantics [OF a q p s]
  from t have 1: "CreateMatcher ?X = ExactMatcher ''facebook.com''" by (rule conjunct1)
  from t have "?X \<noteq> [] \<and> \<not> isSpace (hd ?X) \<and> CHR '':'' \<notin> set ?X \<longrightarrow>
               blocked_under [?X] ?X
               \<and> blocked_under [?X] (''sub.'' @ ?X)
               \<and> \<not> blocked_under [?X] (''not'' @ ?X)
               \<and> (blocked_under [?X] (?X @ ''.other'')
                    \<longleftrightarrow> suffix (''.'' @ ''facebook.com'') (ToLower ?X @ ''.other''))"
    by (elim conjE)
  with h o have "blocked_under [?X] ?X
               \<and> blocked_under [?X] (''sub.'' @ ?X)
               \<and> \<not> blocked_under [?X] (''not'' @ ?X)
               \<and> \<not> blocked_under [?X] (?X @ ''.other'')"
    by (simp only: simp_thms)
  with 1 show ?thesis by simp
qed

text \<open>
  The claim as stated, for every pattern without wildcards, fails on a pattern with a
  colon: \<open>IsBlocked\<close> cuts the candidate at its last colon but \<open>UpdateBlacklist\<close> keeps
  the colon in the pattern, so such an entry does not block its own text. It also fails
  on a pattern that starts with white space (the pattern is trimmed, the middle of
  \<open>sub.X\<close> is not), and \<open>X.other\<close> is a subdomain of \<open>X\<close> when \<open>X\<close> is \<open>other\<close>.
\<close>

theorem exact_pattern_semantics_counterexample:
  "kind_of (CreateMatcher ''example.com:8080'') = Exact
   \<and> \<not> blocked_under [''example.com:8080''] ''example.com:8080''
   \<and> kind_of (CreateMatcher '' a'') = Exact
   \<and> \<not> blocked_under ['' a''] (''sub.'' @ '' a'')
   \<and> kind_of (CreateMatcher ''other'') = Exact
   \<and> blocked_under [''other''] (''other'' @ ''.other'')"
  by code_simp

subsection \<open>Prefix wildcards\<close>

lemma sublist_TrimSpace: "sublist (TrimSpace c) c"
proof -
  let ?u = "dropWhile isSpace c"
  have "suffix (dropWhile isSpace (rev ?u)) (rev ?u)" by (rule suffix_dropWhile)
  then have "prefix (rev (dropWhile isSpace (rev ?u))) ?u" by (simp add: suffix_to_prefix)
  then have "sublist (TrimSpace c) ?u" unfolding TrimSpace_def by (rule prefix_imp_sublist)
  moreover have "sublist ?u c" using suffix_dropWhile[of isSpace c] by (rule suffix_imp_sublist)
  ultimately show ?thesis by (rule sublist_order.order.trans)
qed

lemma sublist_norm: "sublist n (ToLower (TrimSpace c)) \<Longrightarrow> sublist n (ToLower c)"
proof -
  assume a: "sublist n (ToLower (TrimSpace c))"
  have "sublist (ToLower (TrimSpace c)) (ToLower c)"
    unfolding ToLower_def using sublist_TrimSpace by (rule map_mono_sublist)
  with a show ?thesis by (rule sublist_order.order.trans)
qed

lemma suffix_dot_a: "suffix (CHR ''.'' # q) (''a.'' @ q)" "suffix (CHR ''.'' # q) (''a.b.'' @ q)"
  unfolding suffix_def by (rule exI[of _ "''a''"], simp) (rule exI[of _ "''a.b''"], simp)

lemma not_suffix_longer: "\<not> suffix (c # q) q"
  using suffix_length_le[of "c # q" q] by auto

text \<open>
  Claim C3, as amended. Let \<open>P\<close> be an (ASCII) pattern whose trimmed, lower-cased text is
  \<open>*.x\<close> and does not end with \<open>.*\<close>. Then \<open>CreateMatcher\<close> gives the prefix-wildcard
  matcher with suffix \<open>.x\<close>, and this matcher matches a normalized candidate \<open>d\<close> if and
  only if \<open>d\<close> ends with \<open>.x\<close> and is not \<open>x\<close>. If \<open>P\<close> is written \<open>*.X\<close> and \<open>X\<close> contains
  no colon, then under the blacklist \<open>[P]\<close> the domain \<open>X\<close> is allowed and \<open>a.X\<close> and
  \<open>a.b.X\<close> are blocked.
\<close>

theorem prefix_wildcard_semantics:
  assumes "ascii_only P" and "ToLower (TrimSpace P) = ''*.'' @ x"
      and "\<not> suffix ''.*'' (''*.'' @ x)"
  shows "CreateMatcher P = PrefixWildcardMatcher (''*.'' @ x) (''.'' @ x)
         \<and> (\<forall>d. ascii_only d \<and> ToLower (TrimSpace d) = d \<longrightarrow>
               (Match (CreateMatcher P) d \<longleftrightarrow> suffix (''.'' @ x) d \<and> d \<noteq> x))
         \<and> (P = ''*.'' @ X \<and> CHR '':'' \<notin> set X \<longrightarrow>
               \<not> blocked_under [P] X
               \<and> blocked_under [P] (''a.'' @ X)
               \<and> blocked_under [P] (''a.b.'' @ X))"
proof -
  have cm: "CreateMatcher P = PrefixWildcardMatcher (''*.'' @ x) (''.'' @ x)"
    using assms(3) by (simp add: CreateMatcher_cases Let_def assms(2))
  have iff: "\<forall>d. ascii_only d \<and> ToLower (TrimSpace d) = d \<longrightarrow>
               (Match (CreateMatcher P) d \<longleftrightarrow> suffix (''.'' @ x) d \<and> d \<noteq> x)"
  proof (intro allI impI)
    fix d assume "ascii_only d \<and> ToLower (TrimSpace d) = d"
    then have n: "ToLower (TrimSpace d) = d" by simp
    show "Match (CreateMatcher P) d \<longleftrightarrow> suffix (''.'' @ x) d \<and> d \<noteq> x"
      unfolding cm using Match_Prefix_norm[of x d] unfolding n .
  qed
  have ex: "\<not> blocked_under [P] X \<and> blocked_under [P] (''a.'' @ X) \<and> blocked_under [P] (''a.b.'' @ X)"
    if h: "P = ''*.'' @ X \<and> CHR '':'' \<notin> set X"
  proof -
    from h have P: "P = ''*.'' @ X" and nc: "CHR '':'' \<notin> set X" by simp_all
    define R where "R = rev (dropWhile isSpace (rev X))"
    have tP: "TrimSpace (''*.'' @ X) = ''*.'' @ R"
      unfolding R_def by (rule TrimSpace_after_text) (simp_all add: isSpace_def)
    have nb: "TrimSpace P \<noteq> []" using tP P by simp
    have "ToLower (TrimSpace P) = ''*.'' @ ToLower R" using tP P
      by (simp add: ToLower_def)
    with assms(2) have x: "x = ToLower R" by simp
    have t1a: "TrimSpace (''a.'' @ X) = ''a.'' @ R"
      unfolding R_def by (rule TrimSpace_after_text) (simp_all add: isSpace_def)
    have t1b: "TrimSpace (''a.b.'' @ X) = ''a.b.'' @ R"
      unfolding R_def by (rule TrimSpace_after_text) (simp_all add: isSpace_def)
    note t1 = t1a t1b
    have c1: "CHR '':'' \<notin> set (''a.'' @ X)" "CHR '':'' \<notin> set (''a.b.'' @ X)"
      using nc by simp_all
    have l1: "ToLower (''a.'' @ R) = ''a.'' @ x" "ToLower (''a.b.'' @ R) = ''a.b.'' @ x"
      by (simp_all only: ToLower_append ToLower_literals x)
    have key: "blocked_under [P] c \<longleftrightarrow>
        suffix (CHR ''.'' # x) (ToLower (TrimSpace c)) \<and> ToLower (TrimSpace c) \<noteq> x"
      if "CHR '':'' \<notin> set c" for c
    proof -
      have "blocked_under [P] c = Match (CreateMatcher P) (ToLower (TrimSpace c))"
        using nb that by (rule blocked_under_single)
      also have "\<dots> \<longleftrightarrow> suffix (''.'' @ x) (ToLower (TrimSpace c)) \<and> ToLower (TrimSpace c) \<noteq> x"
        unfolding cm by (rule Match_Prefix_norm)
      finally show ?thesis by simp
    qed
    have b1: "\<not> blocked_under [P] X"
    proof
      assume "blocked_under [P] X"
      then have "suffix (CHR ''.'' # x) (ToLower (TrimSpace X))" unfolding key[OF nc] by simp
      then have "length (CHR ''.'' # x) \<le> length (ToLower (TrimSpace X))"
        by (rule suffix_length_le)
      moreover have "length (TrimSpace X) \<le> length R"
        unfolding R_def by (rule length_TrimSpace_le)
      ultimately show False by (simp add: x ToLower_def)
    qed
    have b2: "blocked_under [P] (''a.'' @ X)"
      unfolding key[OF c1(1)] t1 l1 using suffix_dot_a(1)[of x] by simp
    have b3: "blocked_under [P] (''a.b.'' @ X)"
      unfolding key[OF c1(2)] t1 l1 using suffix_dot_a(2)[of x] by simp
    from b1 b2 b3 show ?thesis by (intro conjI)
  qed
  have ex': "P = ''*.'' @ X \<and> CHR '':'' \<notin> set X \<longrightarrow>
               \<not> blocked_under [P] X
               \<and> blocked_under [P] (''a.'' @ X)
               \<and> blocked_under [P] (''a.b.'' @ X)"
    by (rule impI) (rule ex)
  from cm iff ex' show ?thesis by (intro conjI)
qed

theorem prefix_wildcard_semantics_witness:
  "CreateMatcher ''*.Example.com'' = PrefixWildcardMatcher ''*.example.com'' ''.example.com''
   \<and> \<not> blocked_under [''*.Example.com''] ''Example.com''
   \<and> blocked_under [''*.Example.com''] ''a.Example.com''
   \<and> blocked_under [''*.Example.com''] ''a.b.Example.com''"
proof -
  let ?P = "''*.Example.com''" and ?X = "''Example.com''"
  have a: "ascii_only ?P" by code_simp
  have q: "ToLower (TrimSpace ?P) = ''*.'' @ ''example.com''" by code_simp
  have s: "\<not> suffix ''.*'' (''*.'' @ ''example.com'')" by code_simp
  have h: "?P = ''*.'' @ ?X \<and> CHR '':'' \<notin> set ?X" by code_simp
  note t = prefix_wildcard_semantics [OF a q s, of ?X]
  from t have 1: "CreateMatcher ?P = PrefixWildcardMatcher (''*.'' @ ''example.com'') (''.'' @ ''example.com'')"
    by (rule conjunct1)
  from t have "?P = ''*.'' @ ?X \<and> CHR '':'' \<notin> set ?X \<longrightarrow>
               \<not> blocked_under [?P] ?X
               \<and> blocked_under [?P] (''a.'' @ ?X)
               \<and> blocked_under [?P] (''a.b.'' @ ?X)"
    by (elim conjE)
  from this [rule_format, OF h] 1 show ?thesis by simp
qed

text \<open>
  The claim as stated fails on a pattern with a colon: the candidate is cut at its last
  colon, the pattern is not.
\<close>

theorem prefix_wildcard_semantics_counterexample:
  "kind_of (CreateMatcher ''*.example.com:8080'') = PrefixWildcard
   \<and> \<not> blocked_under [''*.example.com:8080''] ''a.example.com:8080''"
  by code_simp

subsection \<open>Suffix wildcards\<close>

lemma sublist_dot_www: "sublist (CHR ''.'' # x @ ''.'') (''www.'' @ x @ ''.com'')"
  unfolding sublist_def by (rule exI[of _ "''www''"], rule exI[of _ "''com''"]) simp

text \<open>
  Claim C4, as amended. Let \<open>P\<close> be an (ASCII) pattern whose trimmed, lower-cased text is
  \<open>x.*\<close> and does not start with \<open>*.\<close>. Then \<open>CreateMatcher\<close> gives the suffix-wildcard
  matcher with prefix \<open>x.\<close>, and this matcher matches a normalized candidate \<open>d\<close> if and
  only if \<open>d\<close> starts with \<open>x.\<close> and is longer than it, or \<open>d\<close> contains \<open>.x.\<close>. If \<open>P\<close>
  is written \<open>X.*\<close> and \<open>X\<close> contains no colon, then under the blacklist \<open>[P]\<close> the domains
  \<open>X.com\<close> and \<open>X.de\<close> are blocked and \<open>notX.com\<close> is allowed; \<open>www.X.com\<close> is blocked
  exactly when its lower-cased text starts with \<open>x.\<close> or contains \<open>.x.\<close>, which is so
  whenever \<open>X\<close> does not start with white space.
\<close>

theorem suffix_wildcard_semantics:
  assumes "ascii_only P" and "ToLower (TrimSpace P) = x @ ''.*''"
      and "\<not> prefix ''*.'' (x @ ''.*'')"
  shows "CreateMatcher P = SuffixWildcardMatcher (x @ ''.*'') (x @ ''.'')
         \<and> (\<forall>d. ascii_only d \<and> ToLower (TrimSpace d) = d \<longrightarrow>
               (Match (CreateMatcher P) d \<longleftrightarrow>
                  (prefix (x @ ''.'') d \<and> length (x @ ''.'') < length d)
                  \<or> sublist (''.'' @ x @ ''.'') d))
         \<and> (P = X @ ''.*'' \<and> CHR '':'' \<notin> set X \<longrightarrow>
               blocked_under [P] (X @ ''.com'')
               \<and> blocked_under [P] (X @ ''.de'')
               \<and> \<not> blocked_under [P] (''not'' @ X @ ''.com'')
               \<and> (blocked_under [P] (''www.'' @ X @ ''.com'') \<longleftrightarrow>
                     prefix (x @ ''.'') (''www.'' @ ToLower X @ ''.com'')
                     \<or> sublist (''.'' @ x @ ''.'') (''www.'' @ ToLower X @ ''.com''))
               \<and> (X = [] \<or> \<not> isSpace (hd X) \<longrightarrow>
                     blocked_under [P] (''www.'' @ X @ ''.com'')))"
proof -
  have sf: "suffix ''.*'' (x @ ''.*'')"
    unfolding suffix_def by (rule exI[of _ x]) simp
  have cm: "CreateMatcher P = SuffixWildcardMatcher (x @ ''.*'') (x @ ''.'')"
    using assms(3) sf by (simp add: CreateMatcher_cases Let_def assms(2))
  have iff: "\<forall>d. ascii_only d \<and> ToLower (TrimSpace d) = d \<longrightarrow>
               (Match (CreateMatcher P) d \<longleftrightarrow>
                  (prefix (x @ ''.'') d \<and> length (x @ ''.'') < length d)
                  \<or> sublist (''.'' @ x @ ''.'') d)"
  proof (intro allI impI)
    fix d assume "ascii_only d \<and> ToLower (TrimSpace d) = d"
    then have n: "ToLower (TrimSpace d) = d" by simp
    show "Match (CreateMatcher P) d \<longleftrightarrow>
                  (prefix (x @ ''.'') d \<and> length (x @ ''.'') < length d)
                  \<or> sublist (''.'' @ x @ ''.'') d"
      unfolding cm using Match_Suffix_norm[of x d] unfolding n .
  qed
  have ex: "blocked_under [P] (X @ ''.com'') \<and> blocked_under [P] (X @ ''.de'')
            \<and> \<not> blocked_under [P] (''not'' @ X @ ''.com'')
            \<and> (blocked_under [P] (''www.'' @ X @ ''.com'') \<longleftrightarrow>
                  prefix (x @ ''.'') (''www.'' @ ToLower X @ ''.com'')
                  \<or> sublist (''.'' @ x @ ''.'') (''www.'' @ ToLower X @ ''.com''))
            \<and> (X = [] \<or> \<not> isSpace (hd X) \<longrightarrow> blocked_under [P] (''www.'' @ X @ ''.com''))"
    if h: "P = X @ ''.*'' \<and> CHR '':'' \<notin> set X"
  proof -
    from h have P: "P = X @ ''.*''" and nc: "CHR '':'' \<notin> set X" by simp_all
    define L where "L = dropWhile isSpace X"
    define W where "W = ToLower (takeWhile isSpace X)"
    have tP: "TrimSpace (X @ ''.*'') = L @ ''.*''"
      unfolding L_def by (rule TrimSpace_before_text) (simp_all add: isSpace_def)
    have nb: "TrimSpace P \<noteq> []" using tP P by simp
    have "ToLower (TrimSpace P) = ToLower L @ ''.*''" using tP P
      by (simp add: ToLower_def)
    with assms(2) have x: "x = ToLower L" by simp
    have "ToLower X = ToLower (takeWhile isSpace X @ dropWhile isSpace X)" by simp
    then have lX: "ToLower X = W @ x" unfolding W_def x L_def by (simp only: ToLower_append)
    have dW: "CHR ''.'' \<notin> set W" unfolding W_def by (rule dot_not_in_leading_space)
    have lenx: "length x \<le> length (ToLower X)" unfolding lX by simp
    have t1: "TrimSpace (X @ ''.com'') = L @ ''.com''"
      unfolding L_def by (rule TrimSpace_before_text) (simp_all add: isSpace_def)
    have t2: "TrimSpace (X @ ''.de'') = L @ ''.de''"
      unfolding L_def by (rule TrimSpace_before_text) (simp_all add: isSpace_def)
    have t3: "TrimSpace (''www.'' @ X @ ''.com'') = ''www.'' @ X @ ''.com''"
      by (simp add: TrimSpace_id_iff isSpace_def)
    have t4: "TrimSpace (''not'' @ X @ ''.com'') = ''not'' @ X @ ''.com''"
      by (simp add: TrimSpace_id_iff isSpace_def)
    have c1: "CHR '':'' \<notin> set (X @ ''.com'')" "CHR '':'' \<notin> set (X @ ''.de'')"
      "CHR '':'' \<notin> set (''www.'' @ X @ ''.com'')" "CHR '':'' \<notin> set (''not'' @ X @ ''.com'')"
      using nc by simp_all
    have l1: "ToLower (L @ ''.com'') = x @ ''.com''" "ToLower (L @ ''.de'') = x @ ''.de''"
      "ToLower (''www.'' @ X @ ''.com'') = ''www.'' @ ToLower X @ ''.com''"
      "ToLower (''not'' @ X @ ''.com'') = ''not'' @ ToLower X @ ''.com''"
      by (simp_all only: ToLower_append ToLower_literals x)
    have key: "blocked_under [P] c \<longleftrightarrow>
                 (prefix (x @ ''.'') (ToLower (TrimSpace c))
                    \<and> length (x @ ''.'') < length (ToLower (TrimSpace c)))
                 \<or> sublist (''.'' @ x @ ''.'') (ToLower (TrimSpace c))"
      if "CHR '':'' \<notin> set c" for c
    proof -
      have "blocked_under [P] c = Match (CreateMatcher P) (ToLower (TrimSpace c))"
        using nb that by (rule blocked_under_single)
      also have "\<dots> \<longleftrightarrow>
          (prefix (x @ ''.'') (ToLower (TrimSpace c))
             \<and> length (x @ ''.'') < length (ToLower (TrimSpace c)))
          \<or> sublist (''.'' @ x @ ''.'') (ToLower (TrimSpace c))"
        unfolding cm by (rule Match_Suffix_norm)
      finally show ?thesis .
    qed
    have b1: "blocked_under [P] (X @ ''.com'')"
      unfolding key[OF c1(1)] t1 l1 by simp
    have b2: "blocked_under [P] (X @ ''.de'')"
      unfolding key[OF c1(2)] t2 l1 by simp
    have b3: "blocked_under [P] (''www.'' @ X @ ''.com'') \<longleftrightarrow>
                  prefix (x @ ''.'') (''www.'' @ ToLower X @ ''.com'')
                  \<or> sublist (''.'' @ x @ ''.'') (''www.'' @ ToLower X @ ''.com'')"
      unfolding key[OF c1(3)] t3 l1 using lenx by simp
    have np: "\<not> prefix (x @ ''.'') ((''not'' @ W) @ x @ ''.com'')"
      using dW by (intro not_prefix_padded) simp_all
    have ns: "\<not> sublist (CHR ''.'' # x @ ''.'') ((''not'' @ W) @ x @ ''.com'')"
      using dW by (intro not_sublist_padded_com) simp
    have b4: "\<not> blocked_under [P] (''not'' @ X @ ''.com'')"
      unfolding key[OF c1(4)] t4 l1 lX using np ns by simp
    have b5: "blocked_under [P] (''www.'' @ X @ ''.com'')" if "X = [] \<or> \<not> isSpace (hd X)"
    proof -
      from that have "L = X" unfolding L_def by (simp add: dropWhile_id_iff)
      then have "ToLower X = x" using x by simp
      then show ?thesis unfolding b3 using sublist_dot_www[of x] by simp
    qed
    from b1 b2 b3 b4 b5 show ?thesis by (intro conjI impI)
  qed
  have ex': "P = X @ ''.*'' \<and> CHR '':'' \<notin> set X \<longrightarrow>
               blocked_under [P] (X @ ''.com'')
               \<and> blocked_under [P] (X @ ''.de'')
               \<and> \<not> blocked_under [P] (''not'' @ X @ ''.com'')
               \<and> (blocked_under [P] (''www.'' @ X @ ''.com'') \<longleftrightarrow>
                     prefix (x @ ''.'') (''www.'' @ ToLower X @ ''.com'')
                     \<or> sublist (''.'' @ x @ ''.'') (''www.'' @ ToLower X @ ''.com''))
               \<and> (X = [] \<or> \<not> isSpace (hd X) \<longrightarrow>
                     blocked_under [P] (''www.'' @ X @ ''.com''))"
    by (rule impI) (rule ex)
  from cm iff ex' show ?thesis by (intro conjI)
qed

theorem suffix_wildcard_semantics_witness:
  "CreateMatcher ''Google.*'' = SuffixWildcardMatcher ''google.*'' ''google.''
   \<and> blocked_under [''Google.*''] ''Google.com''
   \<and> blocked_under [''Google.*''] ''Google.de''
   \<and> blocked_under [''Google.*''] ''www.Google.com''
   \<and> \<not> blocked_under [''Google.*''] ''notGoogle.com''"
proof -
  let ?P = "''Google.*''" and ?X = "''Google''"
  have a: "ascii_only ?P" by code_simp
  have q: "ToLower (TrimSpace ?P) = ''google'' @ ''.*''" by code_simp
  have s: "\<not> prefix ''*.'' (''google'' @ ''.*'')" by code_simp
  have h: "?P = ?X @ ''.*'' \<and> CHR '':'' \<notin> set ?X" by code_simp
  have l: "?X = [] \<or> \<not> isSpace (hd ?X)" by code_simp
  note t = suffix_wildcard_semantics [OF a q s, of ?X]
  from t have 1: "CreateMatcher ?P = SuffixWildcardMatcher (''google'' @ ''.*'') (''google'' @ ''.'')"
    by (rule conjunct1)
  note e = t [THEN conjunct2, THEN conjunct2, rule_format, OF h]
  from e have 2: "blocked_under [?P] (?X @ ''.com'')" by (rule conjunct1)
  from e have 3: "blocked_under [?P] (?X @ ''.de'')" by (elim conjE)
  from e have 4: "\<not> blocked_under [?P] (''not'' @ ?X @ ''.com'')" by (elim conjE)
  from e have "?X = [] \<or> \<not> isSpace (hd ?X) \<longrightarrow> blocked_under [?P] (''www.'' @ ?X @ ''.com'')"
    by (elim conjE)
  from this [rule_format, OF l] have 5: "blocked_under [?P] (''www.'' @ ?X @ ''.com'')" .
  from 1 2 3 4 5 show ?thesis by simp
qed

text \<open>
  The claim as stated fails on a pattern with a colon (the candidate is cut at its last
  colon, the pattern is not) and can fail on a pattern that starts with white space (the
  pattern is trimmed, the middle of \<open>www.X.com\<close> is not).
\<close>

theorem suffix_wildcard_semantics_counterexample:
  "kind_of (CreateMatcher ''host:8080.*'') = SuffixWildcard
   \<and> \<not> blocked_under [''host:8080.*''] (''host:8080'' @ ''.com'')
   \<and> kind_of (CreateMatcher '' a.*'') = SuffixWildcard
   \<and> \<not> blocked_under ['' a.*''] (''www.'' @ '' a'' @ ''.com'')"
  by code_simp

subsection \<open>Double wildcards, and the choice of the kind\<close>

lemma sublist_dot_a_b: "sublist (CHR ''.'' # x @ ''.'') (''a.'' @ x @ ''.b'')"
  unfolding sublist_def by (rule exI[of _ "''a''"], rule exI[of _ "''b''"]) simp

lemma not_sublist_dot_b: "\<not> sublist (CHR ''.'' # x @ ''.'') (x @ ''.b'')"
proof
  assume "sublist (CHR ''.'' # x @ ''.'') (x @ ''.b'')"
  then have "sublist (CHR ''.'' # x @ [CHR ''.'']) ([] @ x @ ''.b'')" by simp
  then show False by (rule sublist_pad_False) simp_all
qed

lemma not_sublist_not_b: "\<not> sublist (CHR ''.'' # x @ ''.'') (''not'' @ x @ ''.b'')"
proof
  assume "sublist (CHR ''.'' # x @ ''.'') (''not'' @ x @ ''.b'')"
  then show False by (rule sublist_pad_False) simp_all
qed

text \<open>
  Claim C5, as amended. Let \<open>P\<close> be an (ASCII) pattern whose trimmed, lower-cased text is
  \<open>*.x.*\<close>. Then \<open>CreateMatcher\<close> gives the double-wildcard matcher with middle \<open>.x.\<close>,
  and this matcher matches a normalized candidate \<open>d\<close> if and only if \<open>d\<close> contains
  \<open>.x.\<close>. If \<open>P\<close> is written \<open>*.X.*\<close> and \<open>X\<close> contains no colon, then under the
  blacklist \<open>[P]\<close> the domain \<open>a.X.b\<close> is blocked and \<open>X.b\<close> and \<open>notX.b\<close> are allowed.
  The kind of matcher is decided for every pattern by two tests on its trimmed text:
  leading \<open>*.\<close> and trailing \<open>.*\<close> give a double wildcard, the first alone a prefix
  wildcard, the second alone a suffix wildcard, neither an exact matcher.
\<close>

theorem double_wildcard_semantics:
  assumes "ascii_only P" and "ToLower (TrimSpace P) = ''*.'' @ x @ ''.*''"
  shows "CreateMatcher P = DoubleWildcardMatcher (''*.'' @ x @ ''.*'') (''.'' @ x @ ''.'')
         \<and> (\<forall>d. ascii_only d \<and> ToLower (TrimSpace d) = d \<longrightarrow>
               (Match (CreateMatcher P) d \<longleftrightarrow> sublist (''.'' @ x @ ''.'') d))
         \<and> (P = ''*.'' @ X @ ''.*'' \<and> CHR '':'' \<notin> set X \<longrightarrow>
               blocked_under [P] (''a.'' @ X @ ''.b'')
               \<and> \<not> blocked_under [P] (X @ ''.b'')
               \<and> \<not> blocked_under [P] (''not'' @ X @ ''.b''))
         \<and> (\<forall>p. ascii_only p \<longrightarrow>
               kind_of (CreateMatcher p) =
                 (if prefix ''*.'' (TrimSpace p) \<and> suffix ''.*'' (TrimSpace p) then DoubleWildcard
                  else if prefix ''*.'' (TrimSpace p) then PrefixWildcard
                  else if suffix ''.*'' (TrimSpace p) then SuffixWildcard
                  else Exact))"
proof -
  have sf: "suffix ''.*'' (''*.'' @ x @ ''.*'')"
    unfolding suffix_def by (rule exI[of _ "''*.'' @ x"]) simp
  have cm: "CreateMatcher P = DoubleWildcardMatcher (''*.'' @ x @ ''.*'') (''.'' @ x @ ''.'')"
    using sf by (simp add: CreateMatcher_cases Let_def assms(2))
  have iff: "\<forall>d. ascii_only d \<and> ToLower (TrimSpace d) = d \<longrightarrow>
               (Match (CreateMatcher P) d \<longleftrightarrow> sublist (''.'' @ x @ ''.'') d)"
  proof (intro allI impI)
    fix d assume "ascii_only d \<and> ToLower (TrimSpace d) = d"
    then have n: "ToLower (TrimSpace d) = d" by simp
    show "Match (CreateMatcher P) d \<longleftrightarrow> sublist (''.'' @ x @ ''.'') d"
      unfolding cm using Match_Double_norm[of x d] unfolding n .
  qed
  have ex: "blocked_under [P] (''a.'' @ X @ ''.b'') \<and> \<not> blocked_under [P] (X @ ''.b'')
            \<and> \<not> blocked_under [P] (''not'' @ X @ ''.b'')"
    if h: "P = ''*.'' @ X @ ''.*'' \<and> CHR '':'' \<notin> set X"
  proof -
    from h have P: "P = ''*.'' @ X @ ''.*''" and nc: "CHR '':'' \<notin> set X" by simp_all
    have tP: "TrimSpace (''*.'' @ X @ ''.*'') = ''*.'' @ X @ ''.*''"
      by (simp add: TrimSpace_id_iff isSpace_def)
    have nb: "TrimSpace P \<noteq> []" using tP P by simp
    have "ToLower (TrimSpace P) = ''*.'' @ ToLower X @ ''.*''" using tP P
      by (simp add: ToLower_def)
    with assms(2) have x: "x = ToLower X" by simp
    have t1: "TrimSpace (''a.'' @ X @ ''.b'') = ''a.'' @ X @ ''.b''"
      by (simp add: TrimSpace_id_iff isSpace_def)
    have c1: "CHR '':'' \<notin> set (''a.'' @ X @ ''.b'')" "CHR '':'' \<notin> set (X @ ''.b'')"
      "CHR '':'' \<notin> set (''not'' @ X @ ''.b'')"
      using nc by simp_all
    have l1: "ToLower (''a.'' @ X @ ''.b'') = ''a.'' @ x @ ''.b''"
      "ToLower (X @ ''.b'') = x @ ''.b''"
      "ToLower (''not'' @ X @ ''.b'') = ''not'' @ x @ ''.b''"
      by (simp_all only: ToLower_append ToLower_literals x)
    have key: "blocked_under [P] c \<longleftrightarrow> sublist (''.'' @ x @ ''.'') (ToLower (TrimSpace c))"
      if "CHR '':'' \<notin> set c" for c
    proof -
      have "blocked_under [P] c = Match (CreateMatcher P) (ToLower (TrimSpace c))"
        using nb that by (rule blocked_under_single)
      also have "\<dots> \<longleftrightarrow> sublist (''.'' @ x @ ''.'') (ToLower (TrimSpace c))"
        unfolding cm by (rule Match_Double_norm)
      finally show ?thesis .
    qed
    have b1: "blocked_under [P] (''a.'' @ X @ ''.b'')"
      unfolding key[OF c1(1)] t1 l1 using sublist_dot_a_b[of x] by simp
    have b2: "\<not> blocked_under [P] (X @ ''.b'')"
    proof
      assume "blocked_under [P] (X @ ''.b'')"
      then have "sublist (''.'' @ x @ ''.'') (ToLower (TrimSpace (X @ ''.b'')))"
        unfolding key[OF c1(2)] .
      then have "sublist (''.'' @ x @ ''.'') (ToLower (X @ ''.b''))" by (rule sublist_norm)
      then show False unfolding l1 using not_sublist_dot_b[of x] by simp
    qed
    have b3: "\<not> blocked_under [P] (''not'' @ X @ ''.b'')"
    proof
      assume "blocked_under [P] (''not'' @ X @ ''.b'')"
      then have "sublist (''.'' @ x @ ''.'') (ToLower (TrimSpace (''not'' @ X @ ''.b'')))"
        unfolding key[OF c1(3)] .
      then have "sublist (''.'' @ x @ ''.'') (ToLower (''not'' @ X @ ''.b''))" by (rule sublist_norm)
      then show False unfolding l1 using not_sublist_not_b[of x] by simp
    qed
    from b1 b2 b3 show ?thesis by (intro conjI)
  qed
  have ex': "P = ''*.'' @ X @ ''.*'' \<and> CHR '':'' \<notin> set X \<longrightarrow>
               blocked_under [P] (''a.'' @ X @ ''.b'')
               \<and> \<not> blocked_under [P] (X @ ''.b'')
               \<and> \<not> blocked_under [P] (''not'' @ X @ ''.b'')"
    by (rule impI) (rule ex)
  have cl: "\<forall>p. ascii_only p \<longrightarrow>
               kind_of (CreateMatcher p) =
                 (if prefix ''*.'' (TrimSpace p) \<and> suffix ''.*'' (TrimSpace p) then DoubleWildcard
                  else if prefix ''*.'' (TrimSpace p) then PrefixWildcard
                  else if suffix ''.*'' (TrimSpace p) then SuffixWildcard
                  else Exact)"
    by (simp add: CreateMatcher_cases Let_def prefix_star_ToLower suffix_star_ToLower)
  from cm iff ex' cl show ?thesis by (intro conjI)
qed

theorem double_wildcard_semantics_witness:
  "CreateMatcher ''*.Google.*'' = DoubleWildcardMatcher ''*.google.*'' ''.google.''
   \<and> blocked_under [''*.Google.*''] ''a.Google.b''
   \<and> \<not> blocked_under [''*.Google.*''] ''Google.b''
   \<and> \<not> blocked_under [''*.Google.*''] ''notGoogle.b''
   \<and> kind_of (CreateMatcher ''facebook.com'') = Exact"
proof -
  let ?P = "''*.Google.*''" and ?X = "''Google''"
  have a: "ascii_only ?P" by code_simp
  have a2: "ascii_only ''facebook.com''" by code_simp
  have q: "ToLower (TrimSpace ?P) = ''*.'' @ ''google'' @ ''.*''" by code_simp
  have h: "?P = ''*.'' @ ?X @ ''.*'' \<and> CHR '':'' \<notin> set ?X" by code_simp
  have k: "(if prefix ''*.'' (TrimSpace ''facebook.com'') \<and> suffix ''.*'' (TrimSpace ''facebook.com'') then DoubleWildcard
                  else if prefix ''*.'' (TrimSpace ''facebook.com'') then PrefixWildcard
                  else if suffix ''.*'' (TrimSpace ''facebook.com'') then SuffixWildcard
                  else Exact) = Exact" by code_simp
  note t = double_wildcard_semantics [OF a q, of ?X]
  from t have 1: "CreateMatcher ?P = DoubleWildcardMatcher (''*.'' @ ''google'' @ ''.*'') (''.'' @ ''google'' @ ''.'')"
    by (rule conjunct1)
  from t have "?P = ''*.'' @ ?X @ ''.*'' \<and> CHR '':'' \<notin> set ?X \<longrightarrow>
               blocked_under [?P] (''a.'' @ ?X @ ''.b'')
               \<and> \<not> blocked_under [?P] (?X @ ''.b'')
               \<and> \<not> blocked_under [?P] (''not'' @ ?X @ ''.b'')"
    by (elim conjE)
  note 2 = this [rule_format, OF h]
  from t have "\<forall>p. ascii_only p \<longrightarrow>
               kind_of (CreateMatcher p) =
                 (if prefix ''*.'' (TrimSpace p) \<and> suffix ''.*'' (TrimSpace p) then DoubleWildcard
                  else if prefix ''*.'' (TrimSpace p) then PrefixWildcard
                  else if suffix ''.*'' (TrimSpace p) then SuffixWildcard
                  else Exact)"
    by (elim conjE)
  from this [rule_format, OF a2] have 3: "kind_of (CreateMatcher ''facebook.com'') = Exact"
    unfolding k .
  from 1 2 3 show ?thesis by simp
qed

text \<open>
  The claim as stated fails on a pattern with a colon: the candidate is cut at its last
  colon, the pattern is not.
\<close>

theorem double_wildcard_semantics_counterexample:
  "kind_of (CreateMatcher ''*.host:8080.*'') = DoubleWildcard
   \<and> \<not> blocked_under [''*.host:8080.*''] ''a.host:8080.b''"
  by code_simp

end
